theory Spec2Isabelle
  imports Main
begin

section \<open>The process list of bbrun.c\<close>

text \<open>
  The module keeps the PIDs of the children it started in a linked list of heap nodes
  (\<^verbatim>\<open>struct pidlist\<close>) whose head is the global \<^verbatim>\<open>pidlist_start\<close>. Pointers are
  addresses, \<open>0\<close> is the null pointer, and the heap maps every allocated address to the
  node stored there. \<^verbatim>\<open>pid_t\<close> is a signed integer. The field \<^verbatim>\<open>next\<close> is written
  \<open>nxt\<close> and the local variable \<^verbatim>\<open>curr\<close> of the loops \<open>currp\<close>.
\<close>

type_synonym addr = nat

record pidlist =
  PID :: int
  prev :: addr
  nxt :: addr

datatype signal = SIGHUP | SIGKILL | SIGTERM | SIGCHLD

datatype level = LOG_DEBUG | LOG_INFO | LOG_ERR

text \<open>
  The four messages the module hands to \<^verbatim>\<open>bb_log\<close>, with their arguments. The message
  of a failed \<^verbatim>\<open>execvp\<close> carries \<^verbatim>\<open>errno\<close>, of which the source prints the description
  \<^verbatim>\<open>strerror(errno)\<close>.
\<close>

datatype message =
    Terminated int
  | Started string int
  | Fork_failed string
  | Exec_failed string int

text \<open>
  The state of the process: the module's globals (\<open>heap\<close>, \<open>pidlist_start\<close>,
  \<open>handler_set\<close>), and what the operating system holds for it: whether the module's
  handler is the action of \<open>SIGCHLD\<close>, the environment variables, the children that
  have not terminated, the terminated children that nobody has waited for (in the order
  in which \<^verbatim>\<open>wait\<close> hands them out), the entries passed to \<^verbatim>\<open>bb_log\<close>, the
  signals passed to \<^verbatim>\<open>kill\<close>, and the numbers of calls of \<^verbatim>\<open>fork\<close> and of
  \<^verbatim>\<open>usleep\<close>.
\<close>

record state =
  heap :: "addr \<Rightarrow> pidlist option"
  pidlist_start :: addr
  handler_set :: int
  sigchld_action :: bool
  environ :: "string \<Rightarrow> string option"
  alive :: "int list"
  zombies :: "int list"
  logged :: "(level \<times> message) list"
  killed :: "(int \<times> signal) list"
  forked :: nat
  slept :: nat

text \<open>
  A call either returns, or the process stops inside it: on undefined behaviour (a null
  or dangling pointer is dereferenced, the \<^verbatim>\<open>int\<close> counter of \<^verbatim>\<open>bb_stop_wait\<close>
  is incremented beyond \<^verbatim>\<open>INT_MAX\<close>), on \<^verbatim>\<open>exit\<close>, when \<^verbatim>\<open>execvp\<close> replaces the
  image, or when the blocking \<^verbatim>\<open>wait\<close> finds no terminated child. A loop that runs
  forever has no result at all: the loops are partial functions into \<open>option\<close>.
\<close>

datatype fault = Null_deref | Invalid_access | Int_overflow

datatype halt = Fault fault | Exit int | Image_replaced | Blocked

datatype 'a result = Ret 'a | Stop halt state

definition INT_MAX :: int where
  "INT_MAX = 2147483647"

subsection \<open>pidlist_add, pidlist_remove, pidlist_find\<close>

text \<open>
  \<^verbatim>\<open>pidlist_add\<close> allocates a node; \<open>a\<close> is the address \<^verbatim>\<open>malloc\<close> returns
  (\<open>0\<close> when it fails, which the source does not check before writing the fields).
\<close>

definition pidlist_add :: "addr \<Rightarrow> int \<Rightarrow> state \<Rightarrow> state result" where
  "pidlist_add a newpid st =
     (if a = 0 then Stop (Fault Null_deref) st
      else Ret (st\<lparr>heap := (heap st)(a \<mapsto>
                  \<lparr>PID = newpid, prev = 0,
                   nxt = (if pidlist_start st \<noteq> 0 then pidlist_start st else 0)\<rparr>),
                pidlist_start := a\<rparr>))"

definition free :: "addr \<Rightarrow> state \<Rightarrow> state" where
  "free a st = st\<lparr>heap := (heap st)(a := None)\<rparr>"

text \<open>
  The loop of \<^verbatim>\<open>pidlist_remove\<close>. On a match, \<open>n1\<close> is the node after the first
  \<^verbatim>\<open>if\<close> (\<^verbatim>\<open>curr->next = curr->prev\<close>), \<open>n2\<close> the node after the second, which
  either writes \<^verbatim>\<open>curr->prev\<close> or moves \<^verbatim>\<open>pidlist_start\<close>; then the node is freed.
\<close>

partial_function (option) remove_loop :: "int \<Rightarrow> addr \<Rightarrow> state \<Rightarrow> state result option" where
  "remove_loop rempid currp st =
     (if currp = 0 then Some (Ret st)
      else case heap st currp of
          None \<Rightarrow> Some (Stop (Fault Invalid_access) st)
        | Some n \<Rightarrow>
            let next_iter = nxt n in
            if PID n = rempid then
              let n1 = (if nxt n \<noteq> 0 then n\<lparr>nxt := prev n\<rparr> else n);
                  n2 = (if prev n1 \<noteq> 0 then n1\<lparr>prev := nxt n1\<rparr> else n1);
                  start = (if prev n1 \<noteq> 0 then pidlist_start st else nxt n1)
              in remove_loop rempid next_iter
                   (free currp (st\<lparr>heap := (heap st)(currp \<mapsto> n2), pidlist_start := start\<rparr>))
            else remove_loop rempid next_iter st)"

definition pidlist_remove :: "int \<Rightarrow> state \<Rightarrow> state result option" where
  "pidlist_remove rempid st = remove_loop rempid (pidlist_start st) st"

partial_function (option) find_loop :: "int \<Rightarrow> addr \<Rightarrow> state \<Rightarrow> int result option" where
  "find_loop findpid currp st =
     (if currp = 0 then Some (Ret 0)
      else case heap st currp of
          None \<Rightarrow> Some (Stop (Fault Invalid_access) st)
        | Some n \<Rightarrow> if PID n = findpid then Some (Ret 1) else find_loop findpid (nxt n) st)"

definition pidlist_find :: "int \<Rightarrow> state \<Rightarrow> int result option" where
  "pidlist_find findpid st = find_loop findpid (pidlist_start st) st"

subsection \<open>The operating system as the module sees it\<close>

definition bb_log :: "level \<Rightarrow> message \<Rightarrow> state \<Rightarrow> state" where
  "bb_log lvl msg st = st\<lparr>logged := logged st @ [(lvl, msg)]\<rparr>"

text \<open>
  \<^verbatim>\<open>wait(0)\<close>: the first terminated child is collected and its PID returned; with no
  child at all the call fails with \<open>-1\<close>; with children of which none has terminated
  it blocks.
\<close>

definition wait :: "state \<Rightarrow> (int \<times> state) result" where
  "wait st =
     (case zombies st of
        z # zs \<Rightarrow> Ret (z, st\<lparr>zombies := zs\<rparr>)
      | [] \<Rightarrow> if alive st = [] then Ret (- 1, st) else Stop Blocked st)"

text \<open>\<^verbatim>\<open>kill\<close> is recorded; what the target does with the signal is up to the target.\<close>

definition kill :: "int \<Rightarrow> signal \<Rightarrow> state \<Rightarrow> state" where
  "kill proc sig st = st\<lparr>killed := killed st @ [(proc, sig)]\<rparr>"

text \<open>
  \<^verbatim>\<open>fork\<close> with the value \<open>ret\<close> it returns in the process that is followed: negative
  on failure, \<open>0\<close> in the child (which has no children of its own), the child's PID in
  the parent.
\<close>

definition fork :: "int \<Rightarrow> state \<Rightarrow> state" where
  "fork ret st =
     (let st1 = st\<lparr>forked := forked st + 1\<rparr> in
      if ret = 0 then st1\<lparr>alive := [], zombies := []\<rparr>
      else if ret > 0 then st1\<lparr>alive := alive st @ [ret]\<rparr>
      else st1)"

definition setenv :: "string \<Rightarrow> string \<Rightarrow> state \<Rightarrow> state" where
  "setenv name val st = st\<lparr>environ := (environ st)(name \<mapsto> val)\<rparr>"

text \<open>\<^verbatim>\<open>argv[0]\<close> as \<^verbatim>\<open>%s\<close> prints it; a null pointer is printed as \<^verbatim>\<open>(null)\<close>.\<close>

definition argv0 :: "string list \<Rightarrow> string" where
  "argv0 argv = (case argv of [] \<Rightarrow> ''(null)'' | a # _ \<Rightarrow> a)"

subsection \<open>The SIGCHLD handler\<close>

definition childsig_handler :: "signal \<Rightarrow> state \<Rightarrow> state result option" where
  "childsig_handler signum st =
     (if signum \<noteq> SIGCHLD then Some (Ret st)
      else case wait st of
          Stop h s \<Rightarrow> Some (Stop h s)
        | Ret (ret, st1) \<Rightarrow> pidlist_remove ret (bb_log LOG_DEBUG (Terminated ret) st1))"

definition check_handler :: "state \<Rightarrow> state" where
  "check_handler st =
     (if handler_set st = 0 then st\<lparr>sigchld_action := True, handler_set := 1\<rparr> else st)"

text \<open>
  What happens while the process sleeps: children terminate, and \<open>SIGCHLD\<close> is
  delivered, which runs the handler when \<^verbatim>\<open>check_handler\<close> has installed it. The
  schedule gives the events of every call of \<^verbatim>\<open>usleep\<close>, numbered from \<open>0\<close>.
  Signals are taken to arrive while the process sleeps, not in the middle of a list
  operation.
\<close>

datatype event = Dies int | Sigchld

fun deliver :: "event list \<Rightarrow> state \<Rightarrow> state result option" where
  "deliver [] st = Some (Ret st)"
| "deliver (Dies p # es) st =
     deliver es (if p \<in> set (alive st)
                 then st\<lparr>alive := removeAll p (alive st), zombies := zombies st @ [p]\<rparr>
                 else st)"
| "deliver (Sigchld # es) st =
     (if sigchld_action st then
        (case childsig_handler SIGCHLD st of
           None \<Rightarrow> None
         | Some (Stop h s) \<Rightarrow> Some (Stop h s)
         | Some (Ret s) \<Rightarrow> deliver es s)
      else deliver es st)"

definition usleep :: "(nat \<Rightarrow> event list) \<Rightarrow> state \<Rightarrow> state result option" where
  "usleep sched st = deliver (sched (slept st)) (st\<lparr>slept := slept st + 1\<rparr>)"

subsection \<open>Starting processes\<close>

text \<open>
  \<^verbatim>\<open>execvp\<close> either replaces the image (\<open>e = None\<close>) or fails with \<^verbatim>\<open>errno\<close>
  \<open>e = Some errno\<close>. \<^verbatim>\<open>bb_run_exec\<close> never returns.
\<close>

definition bb_run_exec :: "string list \<Rightarrow> int option \<Rightarrow> state \<Rightarrow> 'a result" where
  "bb_run_exec argv e st =
     (case e of
        None \<Rightarrow> Stop Image_replaced st
      | Some errno \<Rightarrow> Stop (Exit 42) (bb_log LOG_ERR (Exec_failed (argv0 argv) errno) st))"

definition bb_run_fork ::
    "string list \<Rightarrow> int \<Rightarrow> addr \<Rightarrow> int option \<Rightarrow> state \<Rightarrow> (int \<times> state) result" where
  "bb_run_fork argv ret a e st =
     (let st1 = fork ret (check_handler st) in
      if ret = 0 then bb_run_exec argv e st1
      else if ret > 0 then
        (case pidlist_add a ret (bb_log LOG_INFO (Started (argv0 argv) ret) st1) of
           Stop h s \<Rightarrow> Stop h s
         | Ret st2 \<Rightarrow> Ret (ret, st2))
      else Ret (0, bb_log LOG_ERR (Fork_failed (argv0 argv)) st1))"

definition bb_run_fork_ld ::
    "string list \<Rightarrow> string \<Rightarrow> int \<Rightarrow> addr \<Rightarrow> int option \<Rightarrow> state \<Rightarrow> (int \<times> state) result" where
  "bb_run_fork_ld argv ldpath ret a e st =
     (let st1 = fork ret (check_handler st) in
      if ret = 0 then bb_run_exec argv e (setenv ''LD_LIBRARY_PATH'' ldpath st1)
      else if ret > 0 then
        (case pidlist_add a ret (bb_log LOG_INFO (Started (argv0 argv) ret) st1) of
           Stop h s \<Rightarrow> Stop h s
         | Ret st2 \<Rightarrow> Ret (ret, st2))
      else Ret (0, bb_log LOG_ERR (Fork_failed (argv0 argv)) st1))"

definition bb_is_running :: "int \<Rightarrow> state \<Rightarrow> int result option" where
  "bb_is_running proc st = pidlist_find proc st"

partial_function (option) fork_wait_loop ::
    "(nat \<Rightarrow> event list) \<Rightarrow> int \<Rightarrow> state \<Rightarrow> state result option" where
  "fork_wait_loop sched ret st =
     (case bb_is_running ret st of
        None \<Rightarrow> None
      | Some (Stop h s) \<Rightarrow> Some (Stop h s)
      | Some (Ret b) \<Rightarrow>
          if b = 0 then Some (Ret st)
          else (case usleep sched st of
                  None \<Rightarrow> None
                | Some (Stop h s) \<Rightarrow> Some (Stop h s)
                | Some (Ret st1) \<Rightarrow> fork_wait_loop sched ret st1))"

definition bb_run_fork_wait ::
    "(nat \<Rightarrow> event list) \<Rightarrow> string list \<Rightarrow> int \<Rightarrow> addr \<Rightarrow> int option \<Rightarrow> state
       \<Rightarrow> state result option" where
  "bb_run_fork_wait sched argv ret a e st =
     (let st1 = fork ret (check_handler st) in
      if ret = 0 then Some (bb_run_exec argv e st1)
      else if ret > 0 then
        (case pidlist_add a ret (bb_log LOG_INFO (Started (argv0 argv) ret) st1) of
           Stop h s \<Rightarrow> Some (Stop h s)
         | Ret st2 \<Rightarrow> fork_wait_loop sched ret st2)
      else Some (Ret (bb_log LOG_ERR (Fork_failed (argv0 argv)) st1)))"

subsection \<open>Stopping processes\<close>

definition bb_stop :: "int \<Rightarrow> state \<Rightarrow> state result option" where
  "bb_stop proc st =
     (case bb_is_running proc st of
        None \<Rightarrow> None
      | Some (Stop h s) \<Rightarrow> Some (Stop h s)
      | Some (Ret b) \<Rightarrow> Some (Ret (if b \<noteq> 0 then kill proc SIGTERM st else st)))"

text \<open>
  The loop of \<^verbatim>\<open>bb_stop_wait\<close> with the value of its counter \<open>i\<close> on entry.
  \<^verbatim>\<open>++i\<close> on \<^verbatim>\<open>INT_MAX\<close> is undefined.
\<close>

partial_function (option) stop_wait_loop ::
    "(nat \<Rightarrow> event list) \<Rightarrow> int \<Rightarrow> int \<Rightarrow> state \<Rightarrow> state result option" where
  "stop_wait_loop sched proc i st =
     (case bb_is_running proc st of
        None \<Rightarrow> None
      | Some (Stop h s) \<Rightarrow> Some (Stop h s)
      | Some (Ret b) \<Rightarrow>
          if b = 0 then Some (Ret st)
          else if i = INT_MAX then Some (Stop (Fault Int_overflow) st)
          else
            let i1 = i + 1;
                st1 = (if i1 < 10 then kill proc SIGTERM st else kill proc SIGKILL st)
            in (case usleep sched st1 of
                  None \<Rightarrow> None
                | Some (Stop h s) \<Rightarrow> Some (Stop h s)
                | Some (Ret st2) \<Rightarrow> stop_wait_loop sched proc i1 st2))"

definition bb_stop_wait :: "(nat \<Rightarrow> event list) \<Rightarrow> int \<Rightarrow> state \<Rightarrow> state result option" where
  "bb_stop_wait sched proc st = stop_wait_loop sched proc 0 st"

text \<open>
  The loop of \<^verbatim>\<open>bb_stop_all\<close> with the value of its local \<open>next\<close> on entry. The
  source reads \<^verbatim>\<open>pidlist_start->next\<close> (not \<^verbatim>\<open>curr->next\<close>) before it stops
  \<^verbatim>\<open>curr->PID\<close>.
\<close>

partial_function (option) stop_all_loop ::
    "(nat \<Rightarrow> event list) \<Rightarrow> addr \<Rightarrow> state \<Rightarrow> state result option" where
  "stop_all_loop sched next st =
     (if next = 0 then Some (Ret st)
      else
        let currp = next in
        if pidlist_start st = 0 then Some (Stop (Fault Null_deref) st)
        else case heap st (pidlist_start st) of
            None \<Rightarrow> Some (Stop (Fault Invalid_access) st)
          | Some first \<Rightarrow>
              let next1 = nxt first in
              (case heap st currp of
                 None \<Rightarrow> Some (Stop (Fault Invalid_access) st)
               | Some c \<Rightarrow>
                   (case bb_stop_wait sched (PID c) st of
                      None \<Rightarrow> None
                    | Some (Stop h s) \<Rightarrow> Some (Stop h s)
                    | Some (Ret st1) \<Rightarrow> stop_all_loop sched next1 st1)))"

definition bb_stop_all :: "(nat \<Rightarrow> event list) \<Rightarrow> state \<Rightarrow> state result option" where
  "bb_stop_all sched st = stop_all_loop sched (pidlist_start st) st"

section \<open>Vocabulary of the proofs\<close>

subsection \<open>Outcomes\<close>

text \<open>
  The state in which a call ended, and why it stopped if it did not return. A stop is
  deliberate when the process chose it (\<^verbatim>\<open>exit\<close>, \<^verbatim>\<open>execvp\<close>), as opposed to
  undefined behaviour and to waiting.
\<close>

primrec final :: "state result \<Rightarrow> state" where
  "final (Ret s) = s"
| "final (Stop h s) = s"

primrec stopped :: "'a result \<Rightarrow> halt option" where
  "stopped (Ret x) = None"
| "stopped (Stop h s) = Some h"

primrec deliberate :: "halt \<Rightarrow> bool" where
  "deliberate (Fault f) = False"
| "deliberate (Exit c) = True"
| "deliberate Image_replaced = True"
| "deliberate Blocked = False"

subsection \<open>The effect of a removal\<close>

text \<open>
  \<open>unlink\<close> is what one matching iteration of \<^verbatim>\<open>pidlist_remove\<close> does to the state,
  written as a single update. \<open>purge\<close> is what the whole loop does on a list whose
  nodes all have a null \<^verbatim>\<open>prev\<close>: every matching node is freed and
  \<^verbatim>\<open>pidlist_start\<close> becomes null at the first match.
\<close>

definition unlink :: "addr \<Rightarrow> pidlist \<Rightarrow> state \<Rightarrow> state" where
  "unlink a n st =
     st\<lparr>pidlist_start := (if nxt n \<noteq> 0 then (if prev n \<noteq> 0 then pidlist_start st else prev n)
                          else (if prev n \<noteq> 0 then pidlist_start st else 0)),
        heap := (heap st)(a := None)\<rparr>"

primrec purge :: "int \<Rightarrow> (addr \<times> int) list \<Rightarrow> state \<Rightarrow> state" where
  "purge p [] st = st"
| "purge p (x # xs) st =
     (if snd x = p then purge p xs (st\<lparr>pidlist_start := 0, heap := (heap st)(fst x := None)\<rparr>)
      else purge p xs st)"

subsection \<open>What a call leaves alone\<close>

text \<open>
  \<open>same_os\<close>: only the heap and \<^verbatim>\<open>pidlist_start\<close> may differ. \<open>submap\<close>: every
  node of the first heap is the same node of the second. \<open>calm\<close>: no signal was sent,
  \<^verbatim>\<open>fork\<close> was not called, and the call was not ended deliberately.
\<close>

definition same_os :: "state \<Rightarrow> state \<Rightarrow> bool" where
  "same_os st s =
     (handler_set s = handler_set st \<and> sigchld_action s = sigchld_action st \<and>
      environ s = environ st \<and> alive s = alive st \<and> zombies s = zombies st \<and>
      logged s = logged st \<and> killed s = killed st \<and> forked s = forked st \<and>
      slept s = slept st)"

definition submap :: "state \<Rightarrow> state \<Rightarrow> bool" where
  "submap s st = (\<forall>a n. heap s a = Some n \<longrightarrow> heap st a = Some n)"

definition calm :: "state \<Rightarrow> state result \<Rightarrow> bool" where
  "calm st r =
     (killed (final r) = killed st \<and> forked (final r) = forked st \<and>
      (stopped r = None \<or> stopped r = Some (Fault Invalid_access) \<or> stopped r = Some Blocked))"

subsection \<open>Lists in the heap\<close>

text \<open>
  \<open>chain h p xs\<close>: following \<^verbatim>\<open>next\<close> from \<open>p\<close> visits the addresses and PIDs
  \<open>xs\<close> and then reaches null. A state is well formed when \<^verbatim>\<open>pidlist_start\<close> heads
  such a chain and every allocated node has a null \<^verbatim>\<open>prev\<close>. \<open>shrinks st s\<close>: the
  well-formed state \<open>s\<close> has the list of \<open>st\<close> or the empty list. The reachable
  states are those that \<^verbatim>\<open>pidlist_add\<close>, on memory that is not allocated, and
  \<^verbatim>\<open>pidlist_remove\<close> produce from the empty list.
\<close>

primrec chain :: "(addr \<Rightarrow> pidlist option) \<Rightarrow> addr \<Rightarrow> (addr \<times> int) list \<Rightarrow> bool" where
  "chain h p [] = (p = 0)"
| "chain h p (x # xs) =
     (p = fst x \<and> p \<noteq> 0 \<and>
      (case h p of None \<Rightarrow> False | Some n \<Rightarrow> PID n = snd x \<and> chain h (nxt n) xs))"

definition wellformed :: "state \<Rightarrow> bool" where
  "wellformed st =
     ((\<exists>xs. chain (heap st) (pidlist_start st) xs) \<and>
      (\<forall>a n. heap st a = Some n \<longrightarrow> prev n = 0))"

definition shrinks :: "state \<Rightarrow> state \<Rightarrow> bool" where
  "shrinks st s =
     (wellformed s \<and>
      ((heap s = heap st \<and> pidlist_start s = pidlist_start st) \<or> pidlist_start s = 0))"

inductive reachable :: "state \<Rightarrow> bool" where
  start: "pidlist_start st = 0 \<Longrightarrow> heap st = (\<lambda>a. None) \<Longrightarrow> reachable st"
| add: "reachable st \<Longrightarrow> heap st a = None \<Longrightarrow> pidlist_add a newpid st = Ret st' \<Longrightarrow> reachable st'"
| remove: "reachable st \<Longrightarrow> pidlist_remove rempid st = Some (Ret st') \<Longrightarrow> reachable st'"

subsection \<open>Children and tracked PIDs\<close>

text \<open>
  The children are the processes started and not yet waited for. \<open>launched\<close> are the
  states that the launch operations and the events of a sleep produce from a process
  without children, when \<^verbatim>\<open>malloc\<close> returns memory that is not allocated and
  \<^verbatim>\<open>fork\<close> returns a PID that no child has.
\<close>

definition children :: "state \<Rightarrow> int set" where
  "children st = set (alive st) \<union> set (zombies st)"

definition tracked_ok :: "state \<Rightarrow> bool" where
  "tracked_ok st =
     (distinct (alive st @ zombies st) \<and> (\<forall>a n. heap st a = Some n \<longrightarrow> prev n = 0) \<and>
      (\<exists>xs. chain (heap st) (pidlist_start st) xs \<and> distinct (map snd xs) \<and>
            snd ` set xs \<subseteq> children st))"

inductive launched :: "state \<Rightarrow> bool" where
  boot: "pidlist_start st = 0 \<Longrightarrow> heap st = (\<lambda>a. None) \<Longrightarrow> alive st = [] \<Longrightarrow>
           zombies st = [] \<Longrightarrow> launched st"
| run_fork: "launched st \<Longrightarrow> heap st a = None \<Longrightarrow> ret \<notin> children st \<Longrightarrow>
           bb_run_fork argv ret a e st = Ret (p, st') \<Longrightarrow> launched st'"
| run_fork_ld: "launched st \<Longrightarrow> heap st a = None \<Longrightarrow> ret \<notin> children st \<Longrightarrow>
           bb_run_fork_ld argv ldpath ret a e st = Ret (p, st') \<Longrightarrow> launched st'"
| asleep: "launched st \<Longrightarrow> deliver es st = Some (Ret st') \<Longrightarrow> launched st'"

subsection \<open>Attempts of bb_stop_wait\<close>

text \<open>
  The signal of the \<open>n\<close>-th attempt, counted from 1.
\<close>

definition attempt :: "int \<Rightarrow> nat \<Rightarrow> int \<times> signal" where
  "attempt proc n = (proc, if n < 10 then SIGTERM else SIGKILL)"

subsection \<open>Concrete states and schedules\<close>

text \<open>
  The state of a process that has started nothing; the states after it has launched
  child 5 (node at address 1) and then child 6 (node at address 2); the lists after
  \<^verbatim>\<open>pidlist_add\<close> of 5 and then of 6; and the schedule in which child \<open>p\<close>
  terminates and \<open>SIGCHLD\<close> is delivered during sleep number \<open>t\<close>.
\<close>

definition init :: state where
  "init = \<lparr>heap = (\<lambda>a. None), pidlist_start = 0, handler_set = 0, sigchld_action = False,
           environ = (\<lambda>v. None), alive = [], zombies = [], logged = [], killed = [],
           forked = 0, slept = 0\<rparr>"

definition one_child :: state where
  "one_child =
     init\<lparr>heap := (\<lambda>a. None)(1 \<mapsto> \<lparr>PID = 5, prev = 0, nxt = 0\<rparr>), pidlist_start := 1,
          handler_set := 1, sigchld_action := True, alive := [5],
          logged := [(LOG_INFO, Started ''sleep'' 5)], forked := 1\<rparr>"

definition two_children :: state where
  "two_children =
     one_child\<lparr>heap := (heap one_child)(2 \<mapsto> \<lparr>PID = 6, prev = 0, nxt = 1\<rparr>),
               pidlist_start := 2, alive := [5, 6],
               logged := logged one_child @ [(LOG_INFO, Started ''sleep'' 6)], forked := 2\<rparr>"

definition list_5 :: state where
  "list_5 = init\<lparr>heap := (\<lambda>a. None)(1 \<mapsto> \<lparr>PID = 5, prev = 0, nxt = 0\<rparr>), pidlist_start := 1\<rparr>"

definition list_6_5 :: state where
  "list_6_5 = list_5\<lparr>heap := (heap list_5)(2 \<mapsto> \<lparr>PID = 6, prev = 0, nxt = 1\<rparr>),
                     pidlist_start := 2\<rparr>"

definition dies_at :: "nat \<Rightarrow> int \<Rightarrow> nat \<Rightarrow> event list" where
  "dies_at t p n = (if n = t then [Dies p, Sigchld] else [])"

section \<open>Properties of the model\<close>

subsection \<open>One iteration of each loop\<close>

lemma remove_loop_null: "remove_loop rempid 0 st = Some (Ret st)"
  by (subst remove_loop.simps) simp

lemma remove_loop_node:
  "currp \<noteq> 0 \<Longrightarrow> heap st currp = Some n \<Longrightarrow>
   remove_loop rempid currp st =
     (if PID n = rempid then remove_loop rempid (nxt n) (unlink currp n st)
      else remove_loop rempid (nxt n) st)"
  by (subst remove_loop.simps) (auto simp add: Let_def free_def unlink_def)

lemma find_loop_null: "find_loop findpid 0 st = Some (Ret 0)"
  by (subst find_loop.simps) simp

lemma find_loop_node:
  "currp \<noteq> 0 \<Longrightarrow> heap st currp = Some n \<Longrightarrow>
   find_loop findpid currp st = (if PID n = findpid then Some (Ret 1) else find_loop findpid (nxt n) st)"
  by (subst find_loop.simps) simp

lemma stop_wait_loop_done:
  "bb_is_running proc st = Some (Ret 0) \<Longrightarrow> stop_wait_loop sched proc i st = Some (Ret st)"
  by (subst stop_wait_loop.simps) simp

lemma stop_wait_loop_again:
  "bb_is_running proc st = Some (Ret 1) \<Longrightarrow> i \<noteq> INT_MAX \<Longrightarrow>
   stop_wait_loop sched proc i st =
     (case usleep sched (if i + 1 < 10 then kill proc SIGTERM st else kill proc SIGKILL st) of
        None \<Rightarrow> None
      | Some (Ret st2) \<Rightarrow> stop_wait_loop sched proc (i + 1) st2
      | Some (Stop h s) \<Rightarrow> Some (Stop h s))"
  by (subst stop_wait_loop.simps) (simp add: Let_def)

lemma stop_all_loop_null: "stop_all_loop sched 0 st = Some (Ret st)"
  by (subst stop_all_loop.simps) simp

lemma stop_all_loop_crash:
  "next \<noteq> 0 \<Longrightarrow> pidlist_start st = 0 \<Longrightarrow>
     stop_all_loop sched next st = Some (Stop (Fault Null_deref) st)"
  by (subst stop_all_loop.simps) simp

lemma stop_all_loop_node:
  "next \<noteq> 0 \<Longrightarrow> pidlist_start st \<noteq> 0 \<Longrightarrow> heap st (pidlist_start st) = Some first \<Longrightarrow>
   heap st next = Some c \<Longrightarrow>
     stop_all_loop sched next st =
       (case bb_stop_wait sched (PID c) st of
          None \<Rightarrow> None
        | Some (Stop h s) \<Rightarrow> Some (Stop h s)
        | Some (Ret st1) \<Rightarrow> stop_all_loop sched (nxt first) st1)"
  by (subst stop_all_loop.simps) (simp add: Let_def)

text \<open>
  Partial correctness of a loop is proved by induction on its fixed point.
\<close>

lemmas remove_loop_induct = remove_loop.raw_induct[rotated 1, consumes 1, case_names step]

lemmas find_loop_induct = find_loop.raw_induct[rotated 1, consumes 1, case_names step]

lemmas stop_wait_loop_induct = stop_wait_loop.raw_induct[rotated 1, consumes 1, case_names step]

lemmas stop_all_loop_induct = stop_all_loop.raw_induct[rotated 1, consumes 1, case_names step]

lemmas fork_wait_loop_induct = fork_wait_loop.raw_induct[rotated 1, consumes 1, case_names step]

subsection \<open>What the calls leave alone, in every state\<close>

lemma same_os_trans: "same_os st s \<Longrightarrow> same_os s t \<Longrightarrow> same_os st t"
  by (simp add: same_os_def)

lemma same_os_unlink: "same_os st (unlink a n st)"
  by (simp add: same_os_def unlink_def)

lemma submap_unlink: "submap s (unlink a n st) \<Longrightarrow> submap s st"
  unfolding submap_def unlink_def
  by (simp add: fun_upd_def) (metis option.distinct(1))

lemma remove_loop_frame:
  "remove_loop rempid currp st = Some r \<Longrightarrow>
     same_os st (final r) \<and> submap (final r) st \<and>
     (stopped r = None \<or> stopped r = Some (Fault Invalid_access))"
proof (induction rule: remove_loop_induct)
  case (step remove_loop rempid currp st r)
  show ?case
  proof (cases "currp = 0")
    case True
    with step(2) show ?thesis by (auto simp: same_os_def submap_def)
  next
    case False
    show ?thesis
    proof (cases "heap st currp")
      case None
      with False step(2) show ?thesis by (auto simp: same_os_def submap_def)
    next
      case (Some n)
      show ?thesis
      proof (cases "PID n = rempid")
        case True
        with False Some step(2)
        have "remove_loop rempid (nxt n) (unlink currp n st) = Some r"
          by (auto simp: Let_def free_def unlink_def)
        from step(1)[OF this] show ?thesis
          using same_os_trans[OF same_os_unlink] submap_unlink by blast
      next
        case F: False
        with False Some step(2) have "remove_loop rempid (nxt n) st = Some r"
          by (auto simp: Let_def)
        from step(1)[OF this] show ?thesis .
      qed
    qed
  qed
qed

lemma find_loop_frame:
  "find_loop findpid currp st = Some r \<Longrightarrow>
     (r = Ret 0 \<or> r = Ret 1 \<or> r = Stop (Fault Invalid_access) st)"
proof (induction rule: find_loop_induct)
  case (step find_loop findpid currp st r)
  show ?case
  proof (cases "currp = 0")
    case True
    with step(2) show ?thesis by simp
  next
    case False
    show ?thesis
    proof (cases "heap st currp")
      case None
      with False step(2) show ?thesis by simp
    next
      case (Some n)
      with False step show ?thesis by (cases "PID n = findpid") auto
    qed
  qed
qed

lemma pidlist_remove_calm: "pidlist_remove rempid st = Some r \<Longrightarrow> calm st r"
  unfolding pidlist_remove_def calm_def
  by (drule remove_loop_frame) (auto simp: same_os_def)

lemma childsig_handler_calm: "childsig_handler signum st = Some r \<Longrightarrow> calm st r"
proof (cases "signum = SIGCHLD")
  case False
  assume "childsig_handler signum st = Some r"
  with False show ?thesis by (auto simp: childsig_handler_def calm_def)
next
  case True
  assume h: "childsig_handler signum st = Some r"
  show ?thesis
  proof (cases "wait st")
    case (Stop x s)
    with True h show ?thesis
      by (auto simp: childsig_handler_def calm_def wait_def split: list.splits if_splits)
  next
    case (Ret p)
    obtain ret st1 where p: "p = (ret, st1)" by (cases p)
    with Ret True h have "pidlist_remove ret (bb_log LOG_DEBUG (Terminated ret) st1) = Some r"
      by (simp add: childsig_handler_def)
    from pidlist_remove_calm[OF this] Ret p show ?thesis
      by (auto simp: calm_def bb_log_def wait_def split: list.splits if_splits)
  qed
qed

lemma deliver_calm: "deliver es st = Some r \<Longrightarrow> calm st r"
proof (induction es st rule: deliver.induct)
  case (1 st)
  then show ?case by (auto simp: calm_def)
next
  case (2 p es st)
  then show ?case by (auto simp: calm_def split: if_splits)
next
  case (3 es st)
  show ?case
  proof (cases "sigchld_action st")
    case False
    with 3 show ?thesis by simp
  next
    case True
    show ?thesis
    proof (cases "childsig_handler SIGCHLD st")
      case None
      with True 3(3) show ?thesis by simp
    next
      case (Some q)
      note hc = childsig_handler_calm[OF Some]
      show ?thesis
      proof (cases q)
        case (Stop h s)
        with True Some 3(3) hc show ?thesis by simp
      next
        case (Ret s)
        with True Some 3(3) have "deliver es s = Some r" by simp
        from 3(1)[OF True Some Ret this] hc Ret show ?thesis
          by (simp add: calm_def)
      qed
    qed
  qed
qed

lemma usleep_calm: "usleep sched st = Some r \<Longrightarrow> calm st r"
  unfolding usleep_def by (drule deliver_calm) (simp add: calm_def)

lemma bb_is_running_frame:
  "bb_is_running proc st = Some r \<Longrightarrow>
     (r = Ret 0 \<or> r = Ret 1 \<or> r = Stop (Fault Invalid_access) st)"
  unfolding bb_is_running_def pidlist_find_def by (rule find_loop_frame)

lemma usleep_undeliberate:
  "usleep sched st = Some (Stop h s) \<Longrightarrow> \<not> deliberate h"
  by (drule usleep_calm) (auto simp: calm_def)

lemma bb_is_running_undeliberate:
  "bb_is_running proc st = Some (Stop h s) \<Longrightarrow> \<not> deliberate h"
  by (drule bb_is_running_frame) auto

subsection \<open>The loop of bb_stop_wait, in every state\<close>

lemma stop_wait_loop_trace:
  "stop_wait_loop sched proc i st = Some r \<Longrightarrow> 0 \<le> i \<Longrightarrow>
     \<exists>k. killed (final r) = killed st @ map (attempt proc) [nat i + 1 ..< nat i + 1 + k]"
proof (induction rule: stop_wait_loop_induct)
  case (step stop_wait_loop sched proc i st r)
  show ?case
  proof (cases "bb_is_running proc st")
    case None
    with step(2) show ?thesis by simp
  next
    case (Some q)
    from bb_is_running_frame[OF Some]
    consider "q = Ret 0" | "q = Ret 1" | "q = Stop (Fault Invalid_access) st" by blast
    then show ?thesis
    proof cases
      case 1
      with Some step(2) have "r = Ret st" by simp
      then have "killed (final r) = killed st @ map (attempt proc) [nat i + 1 ..< nat i + 1 + 0]"
        by simp
      then show ?thesis by blast
    next
      case 3
      with Some step(2) have "r = Stop (Fault Invalid_access) st" by simp
      then have "killed (final r) = killed st @ map (attempt proc) [nat i + 1 ..< nat i + 1 + 0]"
        by simp
      then show ?thesis by blast
    next
      case 2
      show ?thesis
      proof (cases "i = INT_MAX")
        case True
        with 2 Some step(2) have "r = Stop (Fault Int_overflow) st" by simp
        then have "killed (final r) = killed st @ map (attempt proc) [nat i + 1 ..< nat i + 1 + 0]"
          by simp
        then show ?thesis by blast
      next
        case False
        define st1 where "st1 = (if i + 1 < 10 then kill proc SIGTERM st else kill proc SIGKILL st)"
        have k1: "killed st1 = killed st @ [attempt proc (nat i + 1)]"
          using step(3) by (auto simp: st1_def kill_def attempt_def)
        from False 2 Some step(2)
        have body: "(case usleep sched st1 of None \<Rightarrow> None
                     | Some (Ret st2) \<Rightarrow> stop_wait_loop sched proc (i + 1) st2
                     | Some (Stop h s) \<Rightarrow> Some (Stop h s)) = Some r"
          by (simp add: Let_def st1_def)
        show ?thesis
        proof (cases "usleep sched st1")
          case None
          with body show ?thesis by simp
        next
          case u: (Some q1)
          note uc = usleep_calm[OF u]
          show ?thesis
          proof (cases q1)
            case (Stop h s)
            with u body have "r = Stop h s" by simp
            with uc Stop k1
            have "killed (final r) = killed st @ map (attempt proc) [nat i + 1 ..< nat i + 1 + 1]"
              by (simp add: calm_def)
            then show ?thesis by blast
          next
            case (Ret st2)
            with u body have "stop_wait_loop sched proc (i + 1) st2 = Some r" by simp
            from step(1)[OF this] step(3) obtain k where
              k: "killed (final r) = killed st2 @ map (attempt proc) [nat (i + 1) + 1 ..< nat (i + 1) + 1 + k]"
              by auto
            have n: "nat (i + 1) = nat i + 1" using step(3) by simp
            from uc Ret have "killed st2 = killed st1" by (simp add: calm_def)
            moreover have "[nat i + 1 ..< nat i + 1 + (k + 1)] =
                (nat i + 1) # [nat (i + 1) + 1 ..< nat (i + 1) + 1 + k]"
              by (simp add: n upt_conv_Cons del: upt_Suc)
            ultimately
            have "killed (final r) = killed st @ map (attempt proc) [nat i + 1 ..< nat i + 1 + (k + 1)]"
              using k k1 by (simp del: upt_Suc)
            then show ?thesis by blast
          qed
        qed
      qed
    qed
  qed
qed

lemma stop_wait_loop_not_running:
  "stop_wait_loop sched proc i st = Some r \<Longrightarrow> r = Ret st' \<Longrightarrow>
     bb_is_running proc st' = Some (Ret 0)"
proof (induction arbitrary: st' rule: stop_wait_loop_induct)
  case (step stop_wait_loop sched proc i st r)
  show ?case
  proof (cases "bb_is_running proc st")
    case None
    with step(2) show ?thesis by simp
  next
    case (Some q)
    from bb_is_running_frame[OF Some]
    consider "q = Ret 0" | "q = Ret 1" | "q = Stop (Fault Invalid_access) st" by blast
    then show ?thesis
    proof cases
      case 1
      with Some step(2,3) show ?thesis by simp
    next
      case 3
      with Some step(2,3) show ?thesis by simp
    next
      case 2
      with Some step(2,3) show ?thesis
        by (auto simp: Let_def split: if_splits option.splits result.splits dest: step(1))
    qed
  qed
qed

lemma stop_wait_loop_undeliberate:
  "stop_wait_loop sched proc i st = Some r \<Longrightarrow> r = Stop h s \<Longrightarrow> \<not> deliberate h"
proof (induction arbitrary: h s rule: stop_wait_loop_induct)
  case (step stop_wait_loop sched proc i st r)
  show ?case
  proof (cases "bb_is_running proc st")
    case None
    with step(2) show ?thesis by simp
  next
    case (Some q)
    show ?thesis
    proof (cases q)
      case (Stop h' s')
      with Some step(2,3) bb_is_running_undeliberate[of proc st h' s'] show ?thesis by simp
    next
      case (Ret b)
      show ?thesis
      proof (cases "b = 0 \<or> i = INT_MAX")
        case True
        with Ret Some step(2,3) show ?thesis by (auto split: if_splits)
      next
        case False
        define st1 where "st1 = (if i + 1 < 10 then kill proc SIGTERM st else kill proc SIGKILL st)"
        from False Ret Some step(2)
        have body: "(case usleep sched st1 of None \<Rightarrow> None
                     | Some (Ret st2) \<Rightarrow> stop_wait_loop sched proc (i + 1) st2
                     | Some (Stop h s) \<Rightarrow> Some (Stop h s)) = Some r"
          by (simp add: Let_def st1_def)
        show ?thesis
        proof (cases "usleep sched st1")
          case None
          with body show ?thesis by simp
        next
          case u: (Some q1)
          show ?thesis
          proof (cases q1)
            case (Stop h' s')
            with u body step(3) usleep_undeliberate[of sched st1 h' s'] show ?thesis by simp
          next
            case (Ret st2)
            with u body have "stop_wait_loop sched proc (i + 1) st2 = Some r" by simp
            from step(1)[OF this step(3)] show ?thesis .
          qed
        qed
      qed
    qed
  qed
qed

lemma bb_stop_wait_undeliberate:
  "bb_stop_wait sched proc st = Some (Stop h s) \<Longrightarrow> \<not> deliberate h"
  unfolding bb_stop_wait_def by (erule stop_wait_loop_undeliberate) simp

lemma bb_stop_wait_first_signal:
  assumes run: "bb_is_running proc st = Some (Ret 1)"
    and ret: "bb_stop_wait sched proc st = Some r"
  shows "\<exists>ks. killed (final r) = killed st @ (proc, SIGTERM) # ks"
proof -
  let ?st1 = "kill proc SIGTERM st"
  from ret run
  have body: "(case usleep sched ?st1 of None \<Rightarrow> None
               | Some (Ret st2) \<Rightarrow> stop_wait_loop sched proc (0 + 1) st2
               | Some (Stop h s) \<Rightarrow> Some (Stop h s)) = Some r"
    by (simp add: bb_stop_wait_def stop_wait_loop_again INT_MAX_def)
  have k1: "killed ?st1 = killed st @ [(proc, SIGTERM)]" by (simp add: kill_def)
  show ?thesis
  proof (cases "usleep sched ?st1")
    case None
    with body show ?thesis by simp
  next
    case (Some q)
    note uc = usleep_calm[OF Some]
    show ?thesis
    proof (cases q)
      case (Stop h s)
      with Some body uc k1 show ?thesis by (auto simp: calm_def)
    next
      case (Ret st2)
      with Some body have "stop_wait_loop sched proc 1 st2 = Some r" by simp
      from stop_wait_loop_trace[OF this] obtain k where
        "killed (final r) = killed st2 @ map (attempt proc) [nat 1 + 1 ..< nat 1 + 1 + k]"
        by auto
      moreover from uc Ret k1 have "killed st2 = killed st @ [(proc, SIGTERM)]"
        by (simp add: calm_def)
      ultimately show ?thesis by simp
    qed
  qed
qed

lemma stop_all_loop_undeliberate:
  "stop_all_loop sched next st = Some r \<Longrightarrow> r = Stop h s \<Longrightarrow> \<not> deliberate h"
proof (induction arbitrary: h s rule: stop_all_loop_induct)
  case (step stop_all_loop sched "next" st r)
  show ?case
  proof (cases "next = 0 \<or> pidlist_start st = 0 \<or> heap st (pidlist_start st) = None
                 \<or> heap st next = None")
    case True
    with step(2,3) show ?thesis
      by (auto simp: Let_def split: if_splits option.splits)
  next
    case False
    then obtain first c where fc: "heap st (pidlist_start st) = Some first" "heap st next = Some c"
      by auto
    with False step(2)
    have body: "(case bb_stop_wait sched (PID c) st of
                   None \<Rightarrow> None
                 | Some (Stop h s) \<Rightarrow> Some (Stop h s)
                 | Some (Ret st1) \<Rightarrow> stop_all_loop sched (nxt first) st1) = Some r"
      by (simp add: Let_def)
    show ?thesis
    proof (cases "bb_stop_wait sched (PID c) st")
      case None
      with body show ?thesis by simp
    next
      case (Some q)
      show ?thesis
      proof (cases q)
        case (Stop h' s')
        with Some body step(3) bb_stop_wait_undeliberate[of sched "PID c" st h' s']
        show ?thesis by simp
      next
        case (Ret st1)
        with Some body have "stop_all_loop sched (nxt first) st1 = Some r" by simp
        from step(1)[OF this step(3)] show ?thesis .
      qed
    qed
  qed
qed

lemma fork_wait_loop_undeliberate:
  "fork_wait_loop sched ret st = Some r \<Longrightarrow> r = Stop h s \<Longrightarrow> \<not> deliberate h"
proof (induction arbitrary: h s rule: fork_wait_loop_induct)
  case (step fork_wait_loop sched ret st r)
  show ?case
  proof (cases "bb_is_running ret st")
    case None
    with step(2) show ?thesis by simp
  next
    case (Some q)
    show ?thesis
    proof (cases q)
      case (Stop h' s')
      with Some step(2,3) bb_is_running_undeliberate[of ret st h' s'] show ?thesis by simp
    next
      case (Ret b)
      show ?thesis
      proof (cases "b = 0")
        case True
        with Ret Some step(2,3) show ?thesis by auto
      next
        case False
        with Ret Some step(2)
        have body: "(case usleep sched st of None \<Rightarrow> None
                     | Some (Ret st1) \<Rightarrow> fork_wait_loop sched ret st1
                     | Some (Stop h s) \<Rightarrow> Some (Stop h s)) = Some r"
          by simp
        show ?thesis
        proof (cases "usleep sched st")
          case None
          with body show ?thesis by simp
        next
          case u: (Some q1)
          show ?thesis
          proof (cases q1)
            case (Stop h' s')
            with u body step(3) usleep_undeliberate[of sched st h' s'] show ?thesis by simp
          next
            case (Ret st1)
            with u body have "fork_wait_loop sched ret st1 = Some r" by simp
            from step(1)[OF this step(3)] show ?thesis .
          qed
        qed
      qed
    qed
  qed
qed

subsection \<open>Chains\<close>

lemma chain_unique: "chain h p xs \<Longrightarrow> chain h p ys \<Longrightarrow> xs = ys"
proof (induction xs arbitrary: p ys)
  case Nil
  then show ?case by (cases ys) auto
next
  case (Cons x xs)
  then show ?case
    by (cases ys) (auto split: option.splits simp: prod_eq_iff)
qed

lemma chain_suffix: "chain h q (ys @ z # zs) \<Longrightarrow> chain h (fst z) (z # zs)"
proof (induction ys arbitrary: q)
  case Nil
  then show ?case by auto
next
  case (Cons y ys)
  then have "case h q of None \<Rightarrow> False | Some n \<Rightarrow> chain h (nxt n) (ys @ z # zs)"
    by (simp split: option.splits)
  then obtain n :: pidlist where "chain h (nxt n) (ys @ z # zs)"
    by (cases "h q") auto
  then show ?case by (rule Cons.IH)
qed

lemma chain_head_fresh:
  assumes "chain h p (x # xs)"
  shows "fst x \<notin> fst ` set xs"
proof
  assume "fst x \<in> fst ` set xs"
  then obtain z where z: "z \<in> set xs" "fst z = fst x" by auto
  then obtain ys zs where split: "xs = ys @ z # zs" by (auto simp: in_set_conv_decomp)
  from assms have p: "p = fst x" by simp
  from assms obtain n where "h p = Some n" "chain h (nxt n) xs"
    by (auto split: option.splits)
  with split have "chain h (fst z) (z # zs)" using chain_suffix by blast
  with z p have "chain h p (z # zs)" by simp
  from chain_unique[OF assms this] split show False by simp
qed

lemma chain_upd: "a \<notin> fst ` set xs \<Longrightarrow> chain (h(a := v)) p xs = chain h p xs"
  by (induction xs arbitrary: p) (auto split: option.splits)

lemma chain_allocated: "chain h p xs \<Longrightarrow> x \<in> set xs \<Longrightarrow> h (fst x) \<noteq> None"
proof (induction xs arbitrary: p)
  case Nil
  then show ?case by simp
next
  case (Cons y ys)
  from Cons.prems(1) obtain n :: pidlist where n: "h (fst y) = Some n" "chain h (nxt n) ys"
    by (cases "h p") auto
  show ?case
  proof (cases "x = y")
    case True
    with n show ?thesis by simp
  next
    case False
    with Cons.prems(2) have "x \<in> set ys" by simp
    from Cons.IH[OF n(2) this] show ?thesis .
  qed
qed

subsection \<open>pidlist_find and pidlist_remove on a well-formed list\<close>

lemma find_loop_chain:
  "chain (heap st) c xs \<Longrightarrow>
     find_loop p c st = Some (Ret (if p \<in> snd ` set xs then 1 else 0))"
proof (induction xs arbitrary: c)
  case Nil
  then show ?case by (simp add: find_loop_null)
next
  case (Cons x xs)
  then obtain n where n: "c = fst x" "c \<noteq> 0" "heap st c = Some n" "PID n = snd x"
      "chain (heap st) (nxt n) xs"
    by (auto split: option.splits)
  from Cons.IH[OF n(5)] n(1-4) show ?case
    by (simp add: find_loop_node)
qed

lemma same_os_purge: "same_os st (purge p xs st)"
proof (induction xs arbitrary: st)
  case Nil
  show ?case by (simp add: same_os_def)
next
  case (Cons x xs)
  have "same_os st (st\<lparr>pidlist_start := 0, heap := (heap st)(fst x := None)\<rparr>)"
    by (simp add: same_os_def)
  with Cons show ?case using same_os_trans by auto
qed

lemma purge_absent: "p \<notin> snd ` set xs \<Longrightarrow> purge p xs st = st"
  by (induction xs arbitrary: st) auto

lemma start_purge:
  "pidlist_start (purge p xs st) = (if p \<in> snd ` set xs then 0 else pidlist_start st)"
proof (induction xs arbitrary: st)
  case Nil
  show ?case by simp
next
  case (Cons x xs)
  show ?case
  proof (cases "snd x = p")
    case True
    then show ?thesis by (simp add: Cons.IH)
  next
    case False
    then show ?thesis by (auto simp add: Cons.IH)
  qed
qed

lemma heap_purge: "heap (purge p xs st) a = Some n \<Longrightarrow> heap st a = Some n"
proof (induction xs arbitrary: st)
  case Nil
  then show ?case by simp
next
  case (Cons x xs)
  show ?case
  proof (cases "snd x = p")
    case True
    with Cons.prems
    have "heap (purge p xs (st\<lparr>pidlist_start := 0, heap := (heap st)(fst x := None)\<rparr>)) a
            = Some n"
      by simp
    from Cons.IH[OF this] show ?thesis by (simp split: if_splits)
  next
    case False
    with Cons.prems have "heap (purge p xs st) a = Some n" by simp
    from Cons.IH[OF this] show ?thesis .
  qed
qed

lemma remove_loop_chain:
  "chain (heap st) c xs \<Longrightarrow> \<forall>a n. heap st a = Some n \<longrightarrow> prev n = 0 \<Longrightarrow>
     remove_loop p c st = Some (Ret (purge p xs st))"
proof (induction xs arbitrary: c st)
  case Nil
  then show ?case by (simp add: remove_loop_null)
next
  case (Cons x xs)
  from Cons.prems(1) obtain n where n: "c = fst x" "c \<noteq> 0" "heap st c = Some n"
      "PID n = snd x" "chain (heap st) (nxt n) xs"
    by (auto split: option.splits)
  from Cons.prems(2) n(3) have pn: "prev n = 0" by blast
  show ?case
  proof (cases "snd x = p")
    case False
    with n Cons.IH[OF n(5) Cons.prems(2)] show ?thesis
      by (simp add: remove_loop_node)
  next
    case True
    let ?st1 = "st\<lparr>pidlist_start := 0, heap := (heap st)(fst x := None)\<rparr>"
    have u: "unlink c n st = ?st1"
      using pn n(1) by (simp add: unlink_def)
    from chain_head_fresh[OF Cons.prems(1)] n(5)
    have c1: "chain (heap ?st1) (nxt n) xs" by (simp add: chain_upd)
    from Cons.prems(2) have p1: "\<forall>a n. heap ?st1 a = Some n \<longrightarrow> prev n = 0" by simp
    from Cons.IH[OF c1 p1] True n u show ?thesis
      by (simp add: remove_loop_node)
  qed
qed

lemma pidlist_find_wellformed:
  "wellformed st \<Longrightarrow> pidlist_find p st = Some (Ret 0) \<or> pidlist_find p st = Some (Ret 1)"
proof -
  assume "wellformed st"
  then obtain xs where "chain (heap st) (pidlist_start st) xs"
    by (auto simp: wellformed_def)
  from find_loop_chain[OF this, of p] show ?thesis
    by (cases "p \<in> snd ` set xs") (simp_all add: pidlist_find_def)
qed

lemma pidlist_remove_wellformed:
  assumes "wellformed st"
  shows "\<exists>st'. pidlist_remove p st = Some (Ret st') \<and> wellformed st' \<and> same_os st st' \<and>
           pidlist_find p st' = Some (Ret 0) \<and>
           (if pidlist_find p st = Some (Ret 1) then pidlist_start st' = 0 else st' = st)"
proof -
  from assms obtain xs where xs: "chain (heap st) (pidlist_start st) xs"
    and pn: "\<forall>a n. heap st a = Some n \<longrightarrow> prev n = 0"
    by (auto simp: wellformed_def)
  let ?st' = "purge p xs st"
  have r: "pidlist_remove p st = Some (Ret ?st')"
    unfolding pidlist_remove_def by (rule remove_loop_chain[OF xs pn])
  have f: "pidlist_find p st = Some (Ret (if p \<in> snd ` set xs then 1 else 0))"
    unfolding pidlist_find_def by (rule find_loop_chain[OF xs])
  show ?thesis
  proof (cases "p \<in> snd ` set xs")
    case True
    then have s0: "pidlist_start ?st' = 0" by (simp add: start_purge)
    then have "chain (heap ?st') (pidlist_start ?st') []" by simp
    with pn have "wellformed ?st'"
      unfolding wellformed_def using heap_purge by blast
    moreover have "pidlist_find p ?st' = Some (Ret 0)"
      by (simp add: pidlist_find_def s0 find_loop_null)
    ultimately show ?thesis using r f True s0 same_os_purge by auto
  next
    case False
    then have "?st' = st" by (rule purge_absent)
    with r f False assms show ?thesis by (simp add: same_os_def)
  qed
qed

lemma wellformed_cong:
  "heap s = heap st \<Longrightarrow> pidlist_start s = pidlist_start st \<Longrightarrow> wellformed s = wellformed st"
  by (simp add: wellformed_def)

lemma pidlist_find_cong:
  assumes "wellformed st" "heap s = heap st" "pidlist_start s = pidlist_start st"
  shows "pidlist_find p s = pidlist_find p st"
proof -
  from assms(1) obtain xs where xs: "chain (heap st) (pidlist_start st) xs"
    by (auto simp: wellformed_def)
  with assms(2,3) have "chain (heap s) (pidlist_start s) xs" by simp
  from find_loop_chain[OF this] find_loop_chain[OF xs] show ?thesis
    by (simp add: pidlist_find_def)
qed

lemma pidlist_add_wellformed:
  assumes wf: "wellformed st" and fresh: "heap st a = None"
    and add: "pidlist_add a newpid st = Ret st'"
  shows "wellformed st'"
proof -
  from add have a: "a \<noteq> 0" by (auto simp: pidlist_add_def split: if_splits)
  let ?n = "\<lparr>PID = newpid, prev = 0, nxt = pidlist_start st\<rparr>"
  from add a have st': "st' = st\<lparr>heap := (heap st)(a \<mapsto> ?n), pidlist_start := a\<rparr>"
    by (auto simp: pidlist_add_def)
  from wf obtain xs where xs: "chain (heap st) (pidlist_start st) xs"
    and pn: "\<forall>a n. heap st a = Some n \<longrightarrow> prev n = 0"
    by (auto simp: wellformed_def)
  have "a \<notin> fst ` set xs"
  proof
    assume "a \<in> fst ` set xs"
    then obtain x where x: "x \<in> set xs" "fst x = a" by auto
    from chain_allocated[OF xs x(1)] x(2) fresh show False by simp
  qed
  with xs have "chain ((heap st)(a \<mapsto> ?n)) (pidlist_start st) xs" by (simp add: chain_upd)
  with a have "chain (heap st') (pidlist_start st') ((a, newpid) # xs)"
    by (simp add: st')
  moreover from pn have "\<forall>b n. heap st' b = Some n \<longrightarrow> prev n = 0"
    by (auto simp: st')
  ultimately show ?thesis unfolding wellformed_def by blast
qed

lemma reachable_wellformed: "reachable st \<Longrightarrow> wellformed st"
proof (induction rule: reachable.induct)
  case (start st)
  then have "chain (heap st) (pidlist_start st) []" by simp
  with start show ?case unfolding wellformed_def by (metis option.distinct(1))
next
  case (add st a newpid st')
  then show ?case using pidlist_add_wellformed by blast
next
  case (remove st rempid st')
  from pidlist_remove_wellformed[OF remove.IH, of rempid] remove.hyps(2)
  show ?case by auto
qed

lemma reachable_prev_null: "reachable st \<Longrightarrow> heap st a = Some n \<Longrightarrow> prev n = 0"
  by (drule reachable_wellformed) (simp add: wellformed_def)

subsection \<open>The handler, the sleep and the stop operations on a well-formed list\<close>

lemma shrinks_refl: "wellformed st \<Longrightarrow> shrinks st st"
  by (simp add: shrinks_def)

lemma shrinks_trans: "shrinks a b \<Longrightarrow> shrinks b c \<Longrightarrow> shrinks a c"
  by (auto simp: shrinks_def)

lemma pidlist_remove_shrinks:
  assumes "wellformed st"
  shows "\<exists>s. pidlist_remove p st = Some (Ret s) \<and> shrinks st s \<and> same_os st s \<and>
           pidlist_find p s = Some (Ret 0)"
proof -
  from pidlist_remove_wellformed[OF assms, of p] obtain s where
    s: "pidlist_remove p st = Some (Ret s)" "wellformed s" "same_os st s"
       "pidlist_find p s = Some (Ret 0)"
       "if pidlist_find p st = Some (Ret 1) then pidlist_start s = 0 else s = st"
    by blast
  then have "shrinks st s"
    by (cases "pidlist_find p st = Some (Ret 1)") (simp_all add: shrinks_def)
  with s show ?thesis by blast
qed

lemma childsig_handler_reaps:
  assumes "wellformed st" "zombies st = z # zs"
  shows "\<exists>s. childsig_handler SIGCHLD st = Some (Ret s) \<and> shrinks st s \<and>
           zombies s = zs \<and> alive s = alive st \<and>
           logged s = logged st @ [(LOG_DEBUG, Terminated z)] \<and>
           pidlist_find z s = Some (Ret 0)"
proof -
  let ?st1 = "bb_log LOG_DEBUG (Terminated z) (st\<lparr>zombies := zs\<rparr>)"
  have h: "heap ?st1 = heap st" "pidlist_start ?st1 = pidlist_start st"
    by (simp_all add: bb_log_def)
  with assms(1) have "wellformed ?st1" using wellformed_cong by blast
  from pidlist_remove_shrinks[OF this, of z] obtain s where
    s: "pidlist_remove z ?st1 = Some (Ret s)" "shrinks ?st1 s" "same_os ?st1 s"
       "pidlist_find z s = Some (Ret 0)"
    by blast
  from assms(2) s(1) have "childsig_handler SIGCHLD st = Some (Ret s)"
    by (simp add: childsig_handler_def wait_def)
  moreover from s(2) h have "shrinks st s" by (simp add: shrinks_def)
  moreover from s(3) have "zombies s = zs" "alive s = alive st"
      "logged s = logged st @ [(LOG_DEBUG, Terminated z)]"
    by (simp_all add: same_os_def bb_log_def)
  ultimately show ?thesis using s(4) by blast
qed

lemma childsig_handler_blocks:
  "zombies st = [] \<Longrightarrow> alive st \<noteq> [] \<Longrightarrow>
     childsig_handler SIGCHLD st = Some (Stop Blocked st)"
  by (simp add: childsig_handler_def wait_def)

lemma childsig_handler_no_child:
  assumes "wellformed st" "zombies st = []" "alive st = []"
  shows "\<exists>s. childsig_handler SIGCHLD st = Some (Ret s) \<and> shrinks st s"
proof -
  let ?st1 = "bb_log LOG_DEBUG (Terminated (- 1)) st"
  have h: "heap ?st1 = heap st" "pidlist_start ?st1 = pidlist_start st"
    by (simp_all add: bb_log_def)
  with assms(1) have "wellformed ?st1" using wellformed_cong by blast
  from pidlist_remove_shrinks[OF this, of "- 1"] obtain s where
    s: "pidlist_remove (- 1) ?st1 = Some (Ret s)" "shrinks ?st1 s"
    by blast
  from assms(2,3) s(1) have "childsig_handler SIGCHLD st = Some (Ret s)"
    by (simp add: childsig_handler_def wait_def)
  moreover from s(2) h have "shrinks st s" by (simp add: shrinks_def)
  ultimately show ?thesis by blast
qed

lemma childsig_handler_shrinks:
  assumes "wellformed st"
  shows "\<exists>r. childsig_handler SIGCHLD st = Some r \<and> shrinks st (final r) \<and>
           (stopped r = None \<or> stopped r = Some Blocked)"
proof (cases "zombies st")
  case (Cons z zs)
  from childsig_handler_reaps[OF assms this] show ?thesis by force
next
  case Nil
  show ?thesis
  proof (cases "alive st = []")
    case True
    from childsig_handler_no_child[OF assms Nil this] show ?thesis by force
  next
    case False
    from childsig_handler_blocks[OF Nil this] assms show ?thesis
      by (simp add: shrinks_refl)
  qed
qed

lemma deliver_shrinks:
  "wellformed st \<Longrightarrow>
     \<exists>r. deliver es st = Some r \<and> shrinks st (final r) \<and>
         (stopped r = None \<or> stopped r = Some Blocked)"
proof (induction es st rule: deliver.induct)
  case (1 st)
  then show ?case by (simp add: shrinks_refl)
next
  case (2 p es st)
  let ?st1 = "if p \<in> set (alive st)
              then st\<lparr>alive := removeAll p (alive st), zombies := zombies st @ [p]\<rparr> else st"
  have h: "heap ?st1 = heap st" "pidlist_start ?st1 = pidlist_start st" by simp_all
  with 2(2) have "wellformed ?st1" using wellformed_cong by blast
  from 2(1)[OF this] h show ?case by (simp add: shrinks_def)
next
  case (3 es st)
  show ?case
  proof (cases "sigchld_action st")
    case False
    with 3(2)[OF False 3(3)] show ?thesis by simp
  next
    case True
    from childsig_handler_shrinks[OF 3(3)] obtain q where
      q: "childsig_handler SIGCHLD st = Some q" "shrinks st (final q)"
         "stopped q = None \<or> stopped q = Some Blocked"
      by blast
    show ?thesis
    proof (cases q)
      case (Stop h s)
      with True q show ?thesis by simp
    next
      case (Ret s)
      with q(2) have "wellformed s" by (simp add: shrinks_def)
      from 3(1)[OF True q(1) Ret this] obtain r where
        r: "deliver es s = Some r" "shrinks s (final r)"
           "stopped r = None \<or> stopped r = Some Blocked"
        by blast
      from q(2) Ret r(2) have "shrinks st (final r)" using shrinks_trans by simp
      with True q(1) Ret r show ?thesis by simp
    qed
  qed
qed

lemma usleep_shrinks:
  assumes "wellformed st"
  shows "\<exists>r. usleep sched st = Some r \<and> shrinks st (final r) \<and>
           (stopped r = None \<or> stopped r = Some Blocked)"
proof -
  let ?st1 = "st\<lparr>slept := slept st + 1\<rparr>"
  have h: "heap ?st1 = heap st" "pidlist_start ?st1 = pidlist_start st" by simp_all
  with assms have "wellformed ?st1" using wellformed_cong by blast
  from deliver_shrinks[OF this, of "sched (slept st)"] h show ?thesis
    by (simp add: usleep_def shrinks_def)
qed

lemma bb_is_running_wellformed:
  "wellformed st \<Longrightarrow> bb_is_running p st = Some (Ret 0) \<or> bb_is_running p st = Some (Ret 1)"
  unfolding bb_is_running_def by (rule pidlist_find_wellformed)

lemma stop_wait_loop_shrinks:
  "stop_wait_loop sched proc i st = Some r \<Longrightarrow> wellformed st \<Longrightarrow>
     shrinks st (final r) \<and>
     (stopped r = None \<or> stopped r = Some Blocked \<or> stopped r = Some (Fault Int_overflow))"
proof (induction rule: stop_wait_loop_induct)
  case (step stop_wait_loop sched proc i st r)
  note wf = step(3)
  from bb_is_running_wellformed[OF wf, of proc]
  consider "bb_is_running proc st = Some (Ret 0)" | "bb_is_running proc st = Some (Ret 1)"
    by blast
  then show ?case
  proof cases
    case 1
    with step(2) wf show ?thesis by (auto simp add: shrinks_refl)
  next
    case 2
    show ?thesis
    proof (cases "i = INT_MAX")
      case True
      with 2 step(2) wf show ?thesis by (auto simp add: shrinks_refl)
    next
      case False
      define st1 where "st1 = (if i + 1 < 10 then kill proc SIGTERM st else kill proc SIGKILL st)"
      have h: "heap st1 = heap st" "pidlist_start st1 = pidlist_start st"
        by (simp_all add: st1_def kill_def)
      with wf have wf1: "wellformed st1" using wellformed_cong by blast
      from False 2 step(2)
      have body: "(case usleep sched st1 of None \<Rightarrow> None
                   | Some (Ret st2) \<Rightarrow> stop_wait_loop sched proc (i + 1) st2
                   | Some (Stop h s) \<Rightarrow> Some (Stop h s)) = Some r"
        by (simp add: Let_def st1_def)
      from usleep_shrinks[OF wf1, of sched] obtain q where
        q: "usleep sched st1 = Some q" "shrinks st1 (final q)"
           "stopped q = None \<or> stopped q = Some Blocked"
        by blast
      from q(2) h have sq: "shrinks st (final q)" by (simp add: shrinks_def)
      show ?thesis
      proof (cases q)
        case (Stop h s)
        with q body sq show ?thesis by auto
      next
        case (Ret st2)
        with q body have "stop_wait_loop sched proc (i + 1) st2 = Some r" by simp
        moreover from sq Ret have "wellformed st2" by (simp add: shrinks_def)
        ultimately have "shrinks st2 (final r) \<and>
            (stopped r = None \<or> stopped r = Some Blocked \<or> stopped r = Some (Fault Int_overflow))"
          by (rule step(1))
        with sq Ret show ?thesis using shrinks_trans by auto
      qed
    qed
  qed
qed

lemma stop_wait_loop_total:
  "wellformed st \<Longrightarrow> 0 \<le> i \<Longrightarrow> i \<le> INT_MAX \<Longrightarrow>
     \<exists>r. stop_wait_loop sched proc i st = Some r"
proof (induction "nat (INT_MAX - i)" arbitrary: i st)
  case 0
  then have i: "i = INT_MAX" by simp
  from bb_is_running_wellformed[OF "0.prems"(1), of proc] show ?case
    by (subst stop_wait_loop.simps) (auto simp: i)
next
  case (Suc m)
  then have i: "i \<noteq> INT_MAX" by auto
  from bb_is_running_wellformed[OF Suc.prems(1), of proc]
  consider "bb_is_running proc st = Some (Ret 0)" | "bb_is_running proc st = Some (Ret 1)"
    by blast
  then show ?case
  proof cases
    case 1
    then show ?thesis by (simp add: stop_wait_loop_done)
  next
    case 2
    define st1 where "st1 = (if i + 1 < 10 then kill proc SIGTERM st else kill proc SIGKILL st)"
    have "heap st1 = heap st" "pidlist_start st1 = pidlist_start st"
      by (simp_all add: st1_def kill_def)
    with Suc.prems(1) have wf1: "wellformed st1" using wellformed_cong by blast
    from usleep_shrinks[OF wf1, of sched] obtain q where
      q: "usleep sched st1 = Some q" "shrinks st1 (final q)" by blast
    show ?thesis
    proof (cases q)
      case (Stop h s)
      with q 2 i show ?thesis by (simp add: stop_wait_loop_again st1_def)
    next
      case (Ret st2)
      with q(2) have wf2: "wellformed st2" by (simp add: shrinks_def)
      from Suc.hyps(2) Suc.prems(2,3) have "m = nat (INT_MAX - (i + 1))" by simp
      from Suc.hyps(1)[OF this wf2] Suc.prems(2) i Suc.prems(3)
      obtain r where "stop_wait_loop sched proc (i + 1) st2 = Some r" by auto
      with Ret q 2 i show ?thesis by (simp add: stop_wait_loop_again st1_def)
    qed
  qed
qed

lemma bb_stop_wait_total:
  "wellformed st \<Longrightarrow> \<exists>r. bb_stop_wait sched proc st = Some r"
  unfolding bb_stop_wait_def by (rule stop_wait_loop_total) (simp_all add: INT_MAX_def)

lemma bb_stop_all_empties:
  assumes wf: "wellformed st" and ret: "bb_stop_all sched st = Some (Ret st')"
  shows "pidlist_start st' = 0 \<and> wellformed st' \<and>
         (if pidlist_start st = 0 then st' = st
          else \<exists>n. heap st (pidlist_start st) = Some n \<and>
                 bb_is_running (PID n) st = Some (Ret 1) \<and>
                 bb_stop_wait sched (PID n) st = Some (Ret st'))"
proof (cases "pidlist_start st = 0")
  case True
  with ret wf show ?thesis by (simp add: bb_stop_all_def stop_all_loop_null)
next
  case False
  from wf obtain xs where xs: "chain (heap st) (pidlist_start st) xs"
    by (auto simp: wellformed_def)
  with False obtain x ys where xy: "xs = x # ys" by (cases xs) auto
  with xs obtain n where n: "heap st (pidlist_start st) = Some n" "PID n = snd x"
    by (auto split: option.splits)
  from find_loop_chain[OF xs, of "PID n"] n xy
  have run: "bb_is_running (PID n) st = Some (Ret 1)"
    by (simp add: bb_is_running_def pidlist_find_def)
  from False n ret
  have body: "(case bb_stop_wait sched (PID n) st of
                 None \<Rightarrow> None
               | Some (Stop h s) \<Rightarrow> Some (Stop h s)
               | Some (Ret st1) \<Rightarrow> stop_all_loop sched (nxt n) st1) = Some (Ret st')"
    by (simp add: bb_stop_all_def stop_all_loop_node)
  then obtain st1 where st1: "bb_stop_wait sched (PID n) st = Some (Ret st1)"
      "stop_all_loop sched (nxt n) st1 = Some (Ret st')"
    by (auto split: option.splits result.splits)
  from st1(1) have loop: "stop_wait_loop sched (PID n) 0 st = Some (Ret st1)"
    by (simp add: bb_stop_wait_def)
  from stop_wait_loop_shrinks[OF loop wf] have sh: "shrinks st st1" by simp
  from stop_wait_loop_not_running[OF loop refl]
  have nr: "bb_is_running (PID n) st1 = Some (Ret 0)" .
  have s0: "pidlist_start st1 = 0"
  proof (rule ccontr)
    assume "pidlist_start st1 \<noteq> 0"
    with sh have "heap st1 = heap st" "pidlist_start st1 = pidlist_start st"
      by (auto simp: shrinks_def)
    from pidlist_find_cong[OF wf this] run nr show False
      by (simp add: bb_is_running_def)
  qed
  have "st' = st1"
  proof (cases "nxt n = 0")
    case True
    with st1(2) show ?thesis by (simp add: stop_all_loop_null)
  next
    case F: False
    with st1(2) s0 show ?thesis by (simp add: stop_all_loop_crash)
  qed
  with s0 sh n run st1(1) False show ?thesis by (auto simp: shrinks_def)
qed

text \<open>
  With two or more PIDs in a well-formed list \<^verbatim>\<open>bb_stop_all\<close> never returns: once
  \<^verbatim>\<open>bb_stop_wait\<close> on the head has returned the list is empty, and the second iteration
  reads \<^verbatim>\<open>pidlist_start->next\<close>.
\<close>

lemma bb_stop_all_no_return:
  assumes wf: "wellformed st" and h: "pidlist_start st \<noteq> 0"
    "heap st (pidlist_start st) = Some n" "nxt n \<noteq> 0"
  shows "bb_stop_all sched st \<noteq> Some (Ret st')"
proof
  assume ret: "bb_stop_all sched st = Some (Ret st')"
  from bb_stop_all_empties[OF wf ret] h(1,2)
  have s0: "pidlist_start st' = 0"
    and sw: "bb_stop_wait sched (PID n) st = Some (Ret st')"
    by auto
  from h ret
  have "(case bb_stop_wait sched (PID n) st of
           None \<Rightarrow> None
         | Some (Stop h s) \<Rightarrow> Some (Stop h s)
         | Some (Ret st1) \<Rightarrow> stop_all_loop sched (nxt n) st1) = Some (Ret st')"
    by (simp add: bb_stop_all_def stop_all_loop_node)
  with sw have "stop_all_loop sched (nxt n) st' = Some (Ret st')" by simp
  with h(3) s0 show False by (simp add: stop_all_loop_crash)
qed

subsection \<open>Launching\<close>

lemma bb_run_fork_registers:
  "bb_run_fork argv ret a e st = Ret (p, st') \<Longrightarrow> 0 < ret \<Longrightarrow>
     p = ret \<and> bb_is_running p st' = Some (Ret 1)"
  by (auto simp: bb_run_fork_def Let_def pidlist_add_def bb_is_running_def pidlist_find_def
      find_loop_node split: if_splits)

lemma bb_run_fork_ld_registers:
  "bb_run_fork_ld argv ldpath ret a e st = Ret (p, st') \<Longrightarrow> 0 < ret \<Longrightarrow>
     p = ret \<and> bb_is_running p st' = Some (Ret 1)"
  by (auto simp: bb_run_fork_ld_def Let_def pidlist_add_def bb_is_running_def pidlist_find_def
      find_loop_node split: if_splits)

subsection \<open>Tracked PIDs are children, once each\<close>

lemma tracked_ok_wellformed: "tracked_ok st \<Longrightarrow> wellformed st"
  unfolding tracked_ok_def wellformed_def by blast

lemma tracked_ok_empty:
  assumes "pidlist_start st = 0" "distinct (alive st @ zombies st)"
    "\<forall>a n. heap st a = Some n \<longrightarrow> prev n = 0"
  shows "tracked_ok st"
proof -
  from assms(1) have "chain (heap st) (pidlist_start st) [] \<and> distinct (map snd []) \<and>
      snd ` set [] \<subseteq> children st"
    by simp
  with assms(2,3) show ?thesis unfolding tracked_ok_def by blast
qed

lemma tracked_ok_cong:
  assumes ok: "tracked_ok st" and h: "heap s = heap st" "pidlist_start s = pidlist_start st"
    and d: "distinct (alive s @ zombies s)" and sub: "children st \<subseteq> children s"
  shows "tracked_ok s"
proof -
  from ok obtain xs where xs: "chain (heap st) (pidlist_start st) xs" "distinct (map snd xs)"
      "snd ` set xs \<subseteq> children st"
    and pn: "\<forall>a n. heap st a = Some n \<longrightarrow> prev n = 0"
    unfolding tracked_ok_def by blast
  from xs h sub have "chain (heap s) (pidlist_start s) xs \<and> distinct (map snd xs) \<and>
      snd ` set xs \<subseteq> children s"
    by auto
  with d pn h show ?thesis unfolding tracked_ok_def by auto
qed

lemma tracked_ok_add:
  assumes ok: "tracked_ok st" and fresh: "heap st a = None"
    and new: "newpid \<notin> children st"
    and add: "pidlist_add a newpid st = Ret st'"
  shows "tracked_ok (st'\<lparr>alive := alive st @ [newpid]\<rparr>)"
proof -
  let ?s = "st'\<lparr>alive := alive st @ [newpid]\<rparr>"
  from add have a: "a \<noteq> 0" by (auto simp: pidlist_add_def split: if_splits)
  let ?n = "\<lparr>PID = newpid, prev = 0, nxt = pidlist_start st\<rparr>"
  from add a have st': "st' = st\<lparr>heap := (heap st)(a \<mapsto> ?n), pidlist_start := a\<rparr>"
    by (auto simp: pidlist_add_def)
  from ok obtain xs where xs: "chain (heap st) (pidlist_start st) xs"
      and d: "distinct (map snd xs)" "snd ` set xs \<subseteq> children st"
      and pn: "\<forall>a n. heap st a = Some n \<longrightarrow> prev n = 0"
      and da: "distinct (alive st @ zombies st)"
    unfolding tracked_ok_def by blast
  have "a \<notin> fst ` set xs"
  proof
    assume "a \<in> fst ` set xs"
    then obtain x where x: "x \<in> set xs" "fst x = a" by auto
    from chain_allocated[OF xs x(1)] x(2) fresh show False by simp
  qed
  with xs have "chain ((heap st)(a \<mapsto> ?n)) (pidlist_start st) xs" by (simp add: chain_upd)
  with a have c: "chain (heap ?s) (pidlist_start ?s) ((a, newpid) # xs)"
    by (simp add: st')
  from d new have "distinct (map snd ((a, newpid) # xs))" by auto
  moreover from d have "snd ` set ((a, newpid) # xs) \<subseteq> children ?s"
    by (auto simp: children_def st')
  moreover from da new have "distinct (alive ?s @ zombies ?s)"
    by (auto simp: st' children_def)
  moreover from pn have "\<forall>b n. heap ?s b = Some n \<longrightarrow> prev n = 0"
    by (auto simp: st')
  ultimately show ?thesis using c unfolding tracked_ok_def by blast
qed

lemma tracked_ok_launch:
  assumes ok: "tracked_ok st" and fresh: "heap st a = None" and new: "ret \<notin> children st"
    and st0: "heap st0 = heap st" "pidlist_start st0 = pidlist_start st"
      "alive st0 = (if ret > 0 then alive st @ [ret] else alive st)" "zombies st0 = zombies st"
    and run: "(if ret > 0 then pidlist_add a ret st0 else Ret st0) = Ret st'"
  shows "tracked_ok st'"
proof (cases "ret > 0")
  case False
  with run st0 have "heap st' = heap st" "pidlist_start st' = pidlist_start st"
      "alive st' = alive st" "zombies st' = zombies st"
    by auto
  with ok show ?thesis
    by (intro tracked_ok_cong[OF ok]) (auto simp: children_def tracked_ok_def)
next
  case True
  let ?s0 = "st0\<lparr>alive := alive st\<rparr>"
  have ok0: "tracked_ok ?s0"
    using ok st0 by (intro tracked_ok_cong[OF ok]) (auto simp: children_def tracked_ok_def)
  from True run have add: "pidlist_add a ret st0 = Ret st'" by simp
  then have "pidlist_add a ret ?s0 = Ret (st'\<lparr>alive := alive st\<rparr>)"
    by (auto simp: pidlist_add_def split: if_splits)
  moreover from new st0 have "ret \<notin> children ?s0" by (simp add: children_def)
  moreover from fresh st0 have "heap ?s0 a = None" by simp
  ultimately have "tracked_ok (st'\<lparr>alive := alive st, alive := alive ?s0 @ [ret]\<rparr>)"
    using tracked_ok_add[OF ok0] by blast
  moreover from add st0 True have e: "alive st' = alive st @ [ret]"
    by (auto simp: pidlist_add_def split: if_splits)
  have "st'\<lparr>alive := alive st @ [ret]\<rparr> = st'"
    using e[symmetric] by simp
  ultimately show ?thesis by simp
qed

lemma tracked_ok_run_fork:
  assumes ok: "tracked_ok st" and fresh: "heap st a = None" and new: "ret \<notin> children st"
    and run: "bb_run_fork argv ret a e st = Ret (p, st')"
  shows "tracked_ok st'"
proof -
  from run have r0: "ret \<noteq> 0" by (auto simp: bb_run_fork_def bb_run_exec_def Let_def split: option.splits)
  let ?st0 = "if ret > 0 then bb_log LOG_INFO (Started (argv0 argv) ret) (fork ret (check_handler st))
              else bb_log LOG_ERR (Fork_failed (argv0 argv)) (fork ret (check_handler st))"
  have "heap ?st0 = heap st" "pidlist_start ?st0 = pidlist_start st"
      "alive ?st0 = (if ret > 0 then alive st @ [ret] else alive st)" "zombies ?st0 = zombies st"
    using r0 by (auto simp: fork_def check_handler_def bb_log_def Let_def)
  moreover from run r0 have "(if ret > 0 then pidlist_add a ret ?st0 else Ret ?st0) = Ret st'"
    by (auto simp: bb_run_fork_def Let_def split: if_splits result.splits)
  ultimately show ?thesis by (rule tracked_ok_launch[OF ok fresh new])
qed

lemma tracked_ok_run_fork_ld:
  assumes ok: "tracked_ok st" and fresh: "heap st a = None" and new: "ret \<notin> children st"
    and run: "bb_run_fork_ld argv ldpath ret a e st = Ret (p, st')"
  shows "tracked_ok st'"
proof -
  from run have r0: "ret \<noteq> 0" by (auto simp: bb_run_fork_ld_def bb_run_exec_def Let_def split: option.splits)
  let ?st0 = "if ret > 0 then bb_log LOG_INFO (Started (argv0 argv) ret) (fork ret (check_handler st))
              else bb_log LOG_ERR (Fork_failed (argv0 argv)) (fork ret (check_handler st))"
  have "heap ?st0 = heap st" "pidlist_start ?st0 = pidlist_start st"
      "alive ?st0 = (if ret > 0 then alive st @ [ret] else alive st)" "zombies ?st0 = zombies st"
    using r0 by (auto simp: fork_def check_handler_def bb_log_def Let_def)
  moreover from run r0 have "(if ret > 0 then pidlist_add a ret ?st0 else Ret ?st0) = Ret st'"
    by (auto simp: bb_run_fork_ld_def Let_def split: if_splits result.splits)
  ultimately show ?thesis by (rule tracked_ok_launch[OF ok fresh new])
qed

lemma tracked_ok_dies:
  assumes ok: "tracked_ok st"
  shows "tracked_ok (if p \<in> set (alive st)
                      then st\<lparr>alive := removeAll p (alive st), zombies := zombies st @ [p]\<rparr>
                      else st)"
proof (cases "p \<in> set (alive st)")
  case False
  with ok show ?thesis by simp
next
  case True
  let ?s = "st\<lparr>alive := removeAll p (alive st), zombies := zombies st @ [p]\<rparr>"
  from ok have d: "distinct (alive st @ zombies st)" by (simp add: tracked_ok_def)
  with True have "distinct (alive ?s @ zombies ?s)"
    by (auto simp: distinct_removeAll)
  moreover from True have "children st \<subseteq> children ?s" by (auto simp: children_def)
  ultimately have "tracked_ok ?s" by (intro tracked_ok_cong[OF ok]) simp_all
  with True show ?thesis by simp
qed

lemma tracked_ok_handler:
  assumes ok: "tracked_ok st" and h: "childsig_handler SIGCHLD st = Some (Ret s)"
  shows "tracked_ok s"
proof -
  from ok obtain xs where xs: "chain (heap st) (pidlist_start st) xs" "distinct (map snd xs)"
      "snd ` set xs \<subseteq> children st"
    and pn: "\<forall>a n. heap st a = Some n \<longrightarrow> prev n = 0"
    and da: "distinct (alive st @ zombies st)"
    unfolding tracked_ok_def by blast
  define ret where "ret = (case zombies st of [] \<Rightarrow> - 1 | z # zs \<Rightarrow> z)"
  define st1 where "st1 = bb_log LOG_DEBUG (Terminated ret)
      (case zombies st of [] \<Rightarrow> st | z # zs \<Rightarrow> st\<lparr>zombies := zs\<rparr>)"
  have h1: "heap st1 = heap st" "pidlist_start st1 = pidlist_start st" "alive st1 = alive st"
      "zombies st1 = tl (zombies st)"
    by (simp_all add: st1_def bb_log_def split: list.splits)
  from h have rem: "pidlist_remove ret st1 = Some (Ret s)"
    by (auto simp: childsig_handler_def wait_def ret_def st1_def bb_log_def
        split: list.splits if_splits)
  from xs(1) pn h1 have "remove_loop ret (pidlist_start st1) st1 = Some (Ret (purge ret xs st1))"
    by (intro remove_loop_chain) simp_all
  with rem have s: "s = purge ret xs st1" by (simp add: pidlist_remove_def)
  have os: "alive s = alive st" "zombies s = tl (zombies st)"
    using same_os_purge[of st1 ret xs] h1 by (simp_all add: s same_os_def)
  from da have ds: "distinct (alive s @ zombies s)"
    by (cases "zombies st") (auto simp: os)
  have pns: "\<forall>a n. heap s a = Some n \<longrightarrow> prev n = 0"
    using heap_purge[of ret xs st1] pn h1 by (auto simp: s)
  show ?thesis
  proof (cases "ret \<in> snd ` set xs")
    case True
    then have "pidlist_start s = 0" by (simp add: s start_purge)
    from tracked_ok_empty[OF this ds pns] show ?thesis .
  next
    case False
    then have eq: "s = st1" by (simp add: s purge_absent)
    have "snd ` set xs \<subseteq> children s"
    proof
      fix q assume q: "q \<in> snd ` set xs"
      with xs(3) have "q \<in> children st" by blast
      moreover from q False have "q \<noteq> ret" by auto
      ultimately show "q \<in> children s"
        by (cases "zombies st") (auto simp: children_def os ret_def)
    qed
    with xs(1,2) h1 eq have "chain (heap s) (pidlist_start s) xs \<and> distinct (map snd xs) \<and>
        snd ` set xs \<subseteq> children s"
      by simp
    with ds pns show ?thesis unfolding tracked_ok_def by blast
  qed
qed

lemma tracked_ok_deliver:
  "deliver es st = Some (Ret s) \<Longrightarrow> tracked_ok st \<Longrightarrow> tracked_ok s"
proof (induction es st rule: deliver.induct)
  case (1 st)
  then show ?case by simp
next
  case (2 p es st)
  from 2(1)[OF _ tracked_ok_dies[OF 2(3)]] 2(2) show ?case by simp
next
  case (3 es st)
  show ?case
  proof (cases "sigchld_action st")
    case False
    with 3 show ?thesis by simp
  next
    case True
    with 3(3) obtain s1 where s1: "childsig_handler SIGCHLD st = Some (Ret s1)"
        "deliver es s1 = Some (Ret s)"
      by (auto split: option.splits result.splits)
    from 3(1)[OF True s1(1) refl s1(2) tracked_ok_handler[OF 3(4) s1(1)]] show ?thesis .
  qed
qed

lemma launched_tracked_ok: "launched st \<Longrightarrow> tracked_ok st"
proof (induction rule: launched.induct)
  case (boot st)
  then show ?case by (intro tracked_ok_empty) simp_all
next
  case (run_fork st a ret argv e p st')
  then show ?case using tracked_ok_run_fork by blast
next
  case (run_fork_ld st a ret argv ldpath e p st')
  then show ?case using tracked_ok_run_fork_ld by blast
next
  case (asleep st es st')
  then show ?case using tracked_ok_deliver by blast
qed

lemma launched_tracked_once:
  assumes "launched st" "chain (heap st) (pidlist_start st) xs"
  shows "distinct (map snd xs) \<and> snd ` set xs \<subseteq> children st"
proof -
  from launched_tracked_ok[OF assms(1)] obtain ys where
    ys: "chain (heap st) (pidlist_start st) ys" "distinct (map snd ys)"
      "snd ` set ys \<subseteq> children st"
    unfolding tracked_ok_def by blast
  from chain_unique[OF assms(2) ys(1)] ys(2,3) show ?thesis by simp
qed

subsection \<open>Evaluation of concrete runs\<close>

lemmas run_simps = bb_run_fork_def bb_run_fork_ld_def fork_def check_handler_def bb_log_def pidlist_add_def
  bb_run_exec_def argv0_def init_def bb_is_running_def pidlist_find_def pidlist_remove_def
  find_loop_null find_loop_node remove_loop_null remove_loop_node unlink_def
  usleep_def childsig_handler_def wait_def kill_def bb_stop_wait_def
  stop_wait_loop_done stop_wait_loop_again INT_MAX_def dies_at_def

lemmas scene_simps = one_child_def two_children_def list_5_def list_6_5_def

lemma launch_one: "bb_run_fork [''sleep'', ''60''] 5 1 None init = Ret (5, one_child)"
  by (simp add: run_simps scene_simps)

lemma launch_two: "bb_run_fork [''sleep'', ''60''] 6 2 None one_child = Ret (6, two_children)"
  by (simp add: run_simps scene_simps)

lemma wellformed_one_child: "wellformed one_child"
  unfolding wellformed_def
  by (intro conjI exI[of _ "[(1, 5)]"]) (auto simp: scene_simps init_def split: if_splits)

lemma wellformed_two_children: "wellformed two_children"
  unfolding wellformed_def
  by (intro conjI exI[of _ "[(2, 6), (1, 5)]"]) (auto simp: scene_simps init_def split: if_splits)

section \<open>The claims\<close>

text \<open>
  C1 (the code departs from the claim). \<^verbatim>\<open>remove(p)\<close> should remove the entries of
  \<open>p\<close> and leave the membership of every other PID as it was. With PID 5 added at
  address 1 and PID 6 added at address 2, \<^verbatim>\<open>pidlist_remove(6)\<close> frees the node of 6,
  sets \<^verbatim>\<open>pidlist_start\<close> to null and so drops PID 5 from the list as well: its node
  stays allocated and is no longer found. (On a well-formed list the PID removed is
  gone afterwards and a PID that is absent changes nothing, by
  \<open>pidlist_remove_wellformed\<close>.)
\<close>

theorem pidlist_remove_drops_other_pids:
  "pidlist_add 1 5 init = Ret list_5 \<and>
   pidlist_add 2 6 list_5 = Ret list_6_5 \<and>
   pidlist_find 5 list_6_5 = Some (Ret 1) \<and>
   pidlist_remove 6 list_6_5 =
     Some (Ret (list_6_5\<lparr>pidlist_start := 0, heap := (heap list_6_5)(2 := None)\<rparr>)) \<and>
   pidlist_find 5 (list_6_5\<lparr>pidlist_start := 0, heap := (heap list_6_5)(2 := None)\<rparr>)
     = Some (Ret 0)"
  by (simp add: run_simps scene_simps)

text \<open>
  C2 (as stated, refuted). One invocation of the handler does not reap every child that
  is ready: with the terminated children 5 and 6 waiting, child 6 is still unreaped when
  the handler returns. And the handler blocks when no child is ready: with the children
  5 and 6 running and none terminated, \<^verbatim>\<open>wait(0)\<close> does not return.
\<close>

theorem childsig_handler_reaps_one_of_two:
  "map_option (zombies \<circ> final)
     (childsig_handler SIGCHLD (two_children\<lparr>alive := [], zombies := [5, 6]\<rparr>)) = Some [6] \<and>
   childsig_handler SIGCHLD two_children = Some (Stop Blocked two_children)"
  by (simp add: run_simps scene_simps)

text \<open>
  C2 (amended). On \<open>SIGCHLD\<close> the handler calls the blocking \<^verbatim>\<open>wait\<close> once. In a
  well-formed list, when terminated children \<open>z # zs\<close> are ready, the invocation reaps
  exactly \<open>z\<close> and leaves \<open>zs\<close> unreaped, logs the termination of \<open>z\<close>, and \<open>z\<close>
  is not in the list afterwards. When no child has terminated and some child is still
  running, the handler blocks in \<^verbatim>\<open>wait\<close>.
\<close>

theorem childsig_handler_single_wait:
  "wellformed st \<Longrightarrow>
     (\<forall>z zs. zombies st = z # zs \<longrightarrow>
        (\<exists>s. childsig_handler SIGCHLD st = Some (Ret s) \<and> zombies s = zs \<and>
             alive s = alive st \<and> logged s = logged st @ [(LOG_DEBUG, Terminated z)] \<and>
             pidlist_find z s = Some (Ret 0))) \<and>
     (zombies st = [] \<and> alive st \<noteq> [] \<longrightarrow>
        childsig_handler SIGCHLD st = Some (Stop Blocked st))"
proof (intro conjI allI impI)
  fix z zs
  assume "wellformed st" "zombies st = z # zs"
  from childsig_handler_reaps[OF this]
  show "\<exists>s. childsig_handler SIGCHLD st = Some (Ret s) \<and> zombies s = zs \<and>
             alive s = alive st \<and> logged s = logged st @ [(LOG_DEBUG, Terminated z)] \<and>
             pidlist_find z s = Some (Ret 0)"
    by blast
next
  assume "zombies st = [] \<and> alive st \<noteq> []"
  then show "childsig_handler SIGCHLD st = Some (Stop Blocked st)"
    by (simp add: childsig_handler_blocks)
qed

theorem childsig_handler_single_wait_witness:
  "wellformed (two_children\<lparr>alive := [], zombies := [5, 6]\<rparr>) \<and>
   zombies (two_children\<lparr>alive := [], zombies := [5, 6]\<rparr>) = [5, 6] \<and>
   (\<exists>s. childsig_handler SIGCHLD (two_children\<lparr>alive := [], zombies := [5, 6]\<rparr>) = Some (Ret s) \<and>
        zombies s = [6] \<and> pidlist_find 5 s = Some (Ret 0)) \<and>
   wellformed two_children \<and> zombies two_children = [] \<and> alive two_children \<noteq> [] \<and>
   childsig_handler SIGCHLD two_children = Some (Stop Blocked two_children)"
proof -
  let ?A = "two_children\<lparr>alive := [], zombies := [5, 6]\<rparr>"
  have wfA: "wellformed ?A"
    using wellformed_two_children wellformed_cong[of ?A two_children] by simp
  have zA: "zombies ?A = [5, 6]" by simp
  have zB: "zombies two_children = [] \<and> alive two_children \<noteq> []"
    by (simp add: scene_simps init_def)
  from childsig_handler_single_wait[OF wfA] zA
  have "\<exists>s. childsig_handler SIGCHLD ?A = Some (Ret s) \<and> zombies s = [6] \<and>
            pidlist_find 5 s = Some (Ret 0)"
    by blast
  moreover from childsig_handler_single_wait[OF wellformed_two_children] zB
  have "childsig_handler SIGCHLD two_children = Some (Stop Blocked two_children)"
    by blast
  ultimately show ?thesis using wfA zA zB wellformed_two_children by blast
qed

text \<open>
  C3 (the code departs from the claim). \<^verbatim>\<open>bb_stop_all\<close> should call
  \<^verbatim>\<open>bb_stop_wait\<close> on every tracked PID and return with the list empty. With the
  children 5 and 6 tracked and child 6 reaped during the first sleep, the call signals 6
  once and then, before it gets to \<^verbatim>\<open>bb_stop_wait(5)\<close>, dereferences the null
  \<^verbatim>\<open>pidlist_start\<close> in \<^verbatim>\<open>next = pidlist_start->next\<close>: it does not return, child 5
  is never signalled and is still alive. (So it is with every well-formed list of two or
  more PIDs, by \<open>bb_stop_all_no_return\<close>.)
\<close>

theorem bb_stop_all_two_children_crashes:
  "map_option stopped (bb_stop_all (dies_at 0 6) two_children) = Some (Some (Fault Null_deref)) \<and>
   map_option (killed \<circ> final) (bb_stop_all (dies_at 0 6) two_children) = Some [(6, SIGTERM)] \<and>
   map_option (alive \<circ> final) (bb_stop_all (dies_at 0 6) two_children) = Some [5]"
  by (simp add: run_simps scene_simps bb_stop_all_def stop_all_loop_null stop_all_loop_crash
        stop_all_loop_node)



text \<open>
  C5. Whenever \<^verbatim>\<open>bb_stop_wait(proc)\<close> returns, \<^verbatim>\<open>bb_is_running(proc)\<close> is false in
  the state it returns in. And it never gives up: when the call stops without
  returning, that is undefined behaviour or the handler blocked in \<^verbatim>\<open>wait\<close>, never an
  exit or a failure the function decides on.
\<close>

theorem bb_stop_wait_returns_untracked:
  "bb_stop_wait sched proc st = Some r \<Longrightarrow>
     (\<forall>st'. r = Ret st' \<longrightarrow> bb_is_running proc st' = Some (Ret 0)) \<and>
     (\<forall>h s. r = Stop h s \<longrightarrow> \<not> deliberate h)"
proof -
  assume "bb_stop_wait sched proc st = Some r"
  then have l: "stop_wait_loop sched proc 0 st = Some r" by (simp add: bb_stop_wait_def)
  show ?thesis
    using stop_wait_loop_not_running[OF l] stop_wait_loop_undeliberate[OF l] by blast
qed

theorem bb_stop_wait_returns_untracked_witness:
  "bb_is_running 5 one_child = Some (Ret 1) \<and>
   map_option stopped (bb_stop_wait (dies_at 2 5) 5 one_child) = Some None \<and>
   Option.bind (bb_stop_wait (dies_at 2 5) 5 one_child) (bb_is_running 5 \<circ> final) = Some (Ret 0)"
proof -
  have "\<exists>s. bb_stop_wait (dies_at 2 5) 5 one_child = Some (Ret s)"
    by (simp add: run_simps scene_simps)
  then obtain s where s: "bb_stop_wait (dies_at 2 5) 5 one_child = Some (Ret s)" by blast
  from bb_stop_wait_returns_untracked[OF s] have "bb_is_running 5 s = Some (Ret 0)" by simp
  moreover have "bb_is_running 5 one_child = Some (Ret 1)"
    by (simp add: run_simps scene_simps)
  ultimately show ?thesis using s by simp
qed

text \<open>
  C6 (the code departs from the claim). A PID should be in the list exactly when the
  module launched it and the reaper has not yet seen it exit. After the launches of the
  children 5 and 6, child 6 terminates and the handler runs once: child 5 is still
  alive, its termination has not been logged, and yet the list is empty and
  \<^verbatim>\<open>bb_is_running(5)\<close> is false. (The rest of the invariant holds: in every launched
  state the tracked PIDs are children, once each, by \<open>launched_tracked_once\<close>.)
\<close>

theorem registry_forgets_running_child:
  "bb_run_fork [''sleep'', ''60''] 5 1 None init = Ret (5, one_child) \<and>
   bb_run_fork [''sleep'', ''60''] 6 2 None one_child = Ret (6, two_children) \<and>
   map_option (alive \<circ> final) (deliver [Dies 6, Sigchld] two_children) = Some [5] \<and>
   map_option (zombies \<circ> final) (deliver [Dies 6, Sigchld] two_children) = Some [] \<and>
   map_option (logged \<circ> final) (deliver [Dies 6, Sigchld] two_children) =
     Some [(LOG_INFO, Started ''sleep'' 5), (LOG_INFO, Started ''sleep'' 6),
           (LOG_DEBUG, Terminated 6)] \<and>
   map_option (pidlist_start \<circ> final) (deliver [Dies 6, Sigchld] two_children) = Some 0 \<and>
   Option.bind (deliver [Dies 6, Sigchld] two_children) (bb_is_running 5 \<circ> final)
     = Some (Ret 0)"
  by (simp add: run_simps scene_simps)

text \<open>
  C7. When \<^verbatim>\<open>fork\<close> fails (it returns a negative value), \<^verbatim>\<open>bb_run_fork\<close> and
  \<^verbatim>\<open>bb_run_fork_ld\<close> return 0, whatever \<open>argv\<close> is; they add one error entry to the
  log, leave the heap and \<^verbatim>\<open>pidlist_start\<close> as they were, and have called \<^verbatim>\<open>fork\<close>
  exactly once.
\<close>

theorem fork_failure_returns_zero:
  "ret < 0 \<Longrightarrow>
     (\<exists>st'. bb_run_fork argv ret a e st = Ret (0, st') \<and>
            bb_run_fork_ld argv ldpath ret a e st = Ret (0, st') \<and>
            logged st' = logged st @ [(LOG_ERR, Fork_failed (argv0 argv))] \<and>
            heap st' = heap st \<and> pidlist_start st' = pidlist_start st \<and>
            alive st' = alive st \<and> forked st' = forked st + 1)"
  by (simp add: bb_run_fork_def bb_run_fork_ld_def fork_def check_handler_def bb_log_def Let_def)

theorem fork_failure_returns_zero_witness:
  "(- 1 :: int) < 0 \<and>
   (\<exists>st'. bb_run_fork [''sleep'', ''60''] (- 1) 0 None one_child = Ret (0, st') \<and>
          bb_run_fork_ld [''sleep'', ''60''] ''/usr/lib'' (- 1) 0 None one_child = Ret (0, st') \<and>
          logged st' = logged one_child @ [(LOG_ERR, Fork_failed ''sleep'')] \<and>
          heap st' = heap one_child \<and> pidlist_start st' = pidlist_start one_child \<and>
          forked st' = forked one_child + 1)"
proof -
  have n: "(- 1 :: int) < 0" by simp
  from fork_failure_returns_zero[OF n, of "[''sleep'', ''60'']" 0 None one_child "''/usr/lib''"]
  show ?thesis by (auto simp add: argv0_def)
qed

text \<open>
  C8 (the code departs from the claim). \<^verbatim>\<open>bb_is_running(pid)\<close> should stay true from
  the return of the launch until the process exits and is reaped. Child 6 is launched and
  \<^verbatim>\<open>bb_is_running(6)\<close> is true; then child 5, launched earlier, terminates and is
  reaped during a sleep: child 6 is still alive, and \<^verbatim>\<open>bb_is_running(6)\<close> is false.
  (That it is true when the launch returns holds in general, by
  \<open>bb_run_fork_registers\<close>.)
\<close>

theorem is_running_lost_before_exit:
  "bb_run_fork [''sleep'', ''60''] 5 1 None init = Ret (5, one_child) \<and>
   bb_run_fork [''sleep'', ''60''] 6 2 None one_child = Ret (6, two_children) \<and>
   bb_is_running 6 two_children = Some (Ret 1) \<and>
   map_option (alive \<circ> final) (usleep (dies_at 0 5) two_children) = Some [6] \<and>
   Option.bind (usleep (dies_at 0 5) two_children) (bb_is_running 6 \<circ> final) = Some (Ret 0)"
  by (simp add: run_simps scene_simps)

text \<open>
  C9. When \<^verbatim>\<open>execvp\<close> fails, \<^verbatim>\<open>bb_run_exec\<close> logs the error of \<^verbatim>\<open>errno\<close> and the
  process exits with status 42, with nothing in between; so does the child of each of
  the three launch operations. No operation of the module exits with any other status:
  an exit out of a launch operation has status 42, and the operations that stop or query
  processes never exit.
\<close>

theorem exec_failure_exits_42:
  "(bb_run_exec argv (Some errno) st :: unit result) =
      Stop (Exit 42) (bb_log LOG_ERR (Exec_failed (argv0 argv) errno) st) \<and>
   bb_run_fork argv 0 a (Some errno) st =
      Stop (Exit 42) (bb_log LOG_ERR (Exec_failed (argv0 argv) errno) (fork 0 (check_handler st))) \<and>
   bb_run_fork_ld argv ldpath 0 a (Some errno) st =
      Stop (Exit 42) (bb_log LOG_ERR (Exec_failed (argv0 argv) errno)
                       (setenv ''LD_LIBRARY_PATH'' ldpath (fork 0 (check_handler st)))) \<and>
   bb_run_fork_wait sched argv 0 a (Some errno) st =
      Some (Stop (Exit 42)
             (bb_log LOG_ERR (Exec_failed (argv0 argv) errno) (fork 0 (check_handler st)))) \<and>
   (bb_run_fork argv ret a e st = Stop (Exit c) s \<longrightarrow> c = 42) \<and>
   (bb_run_fork_ld argv ldpath ret a e st = Stop (Exit c) s \<longrightarrow> c = 42) \<and>
   (bb_run_fork_wait sched argv ret a e st = Some (Stop (Exit c) s) \<longrightarrow> c = 42) \<and>
   bb_is_running proc st \<noteq> Some (Stop (Exit c) s) \<and>
   bb_stop proc st \<noteq> Some (Stop (Exit c) s) \<and>
   bb_stop_wait sched proc st \<noteq> Some (Stop (Exit c) s) \<and>
   bb_stop_all sched st \<noteq> Some (Stop (Exit c) s)"
proof (intro conjI impI)
  show "(bb_run_exec argv (Some errno) st :: unit result) =
          Stop (Exit 42) (bb_log LOG_ERR (Exec_failed (argv0 argv) errno) st)"
    by (simp add: bb_run_exec_def)
next
  show "bb_run_fork argv 0 a (Some errno) st =
      Stop (Exit 42) (bb_log LOG_ERR (Exec_failed (argv0 argv) errno) (fork 0 (check_handler st)))"
    by (simp add: bb_run_fork_def bb_run_exec_def Let_def)
next
  show "bb_run_fork_ld argv ldpath 0 a (Some errno) st =
      Stop (Exit 42) (bb_log LOG_ERR (Exec_failed (argv0 argv) errno)
                       (setenv ''LD_LIBRARY_PATH'' ldpath (fork 0 (check_handler st))))"
    by (simp add: bb_run_fork_ld_def bb_run_exec_def Let_def)
next
  show "bb_run_fork_wait sched argv 0 a (Some errno) st =
      Some (Stop (Exit 42)
             (bb_log LOG_ERR (Exec_failed (argv0 argv) errno) (fork 0 (check_handler st))))"
    by (simp add: bb_run_fork_wait_def bb_run_exec_def Let_def)
next
  assume "bb_run_fork argv ret a e st = Stop (Exit c) s"
  then show "c = 42"
    by (auto simp: bb_run_fork_def bb_run_exec_def pidlist_add_def Let_def
        split: if_splits option.splits)
next
  assume "bb_run_fork_ld argv ldpath ret a e st = Stop (Exit c) s"
  then show "c = 42"
    by (auto simp: bb_run_fork_ld_def bb_run_exec_def pidlist_add_def Let_def
        split: if_splits option.splits)
next
  assume w: "bb_run_fork_wait sched argv ret a e st = Some (Stop (Exit c) s)"
  show "c = 42"
  proof (cases "ret > 0")
    case False
    with w show ?thesis
      by (auto simp: bb_run_fork_wait_def bb_run_exec_def Let_def split: if_splits option.splits)
  next
    case True
    with w show ?thesis
      using fork_wait_loop_undeliberate[of sched ret _ "Stop (Exit c) s" "Exit c" s]
      by (auto simp: bb_run_fork_wait_def pidlist_add_def Let_def split: if_splits)
  qed
next
  show "bb_is_running proc st \<noteq> Some (Stop (Exit c) s)"
    using bb_is_running_undeliberate[of proc st "Exit c" s] by auto
next
  show "bb_stop proc st \<noteq> Some (Stop (Exit c) s)"
    using bb_is_running_undeliberate[of proc st "Exit c" s]
    by (auto simp: bb_stop_def split: option.splits result.splits)
next
  show "bb_stop_wait sched proc st \<noteq> Some (Stop (Exit c) s)"
    using bb_stop_wait_undeliberate[of sched proc st "Exit c" s] by auto
next
  show "bb_stop_all sched st \<noteq> Some (Stop (Exit c) s)"
    using stop_all_loop_undeliberate[of sched "pidlist_start st" st "Stop (Exit c) s" "Exit c" s]
    by (auto simp: bb_stop_all_def)
qed

theorem exec_failure_exits_42_witness:
  "bb_run_fork [''/does/not/exist''] 0 0 (Some 2) one_child =
     Stop (Exit 42)
       (one_child\<lparr>alive := [], zombies := [],
                  logged := logged one_child @ [(LOG_ERR, Exec_failed ''/does/not/exist'' 2)],
                  forked := 2\<rparr>) \<and>
   (42 :: int) = 42"
proof -
  have e: "bb_run_fork [''/does/not/exist''] 0 0 (Some 2) one_child =
     Stop (Exit 42)
       (one_child\<lparr>alive := [], zombies := [],
                  logged := logged one_child @ [(LOG_ERR, Exec_failed ''/does/not/exist'' 2)],
                  forked := 2\<rparr>)"
    by (simp add: run_simps scene_simps)
  from exec_failure_exits_42[of "[''/does/not/exist'']" 2 one_child 0 _ _ 0 "Some 2" 42] e
  show ?thesis by simp
qed

text \<open>
  C10. In every state reached from the empty list by calls of \<^verbatim>\<open>pidlist_add\<close> (each
  on a node that \<^verbatim>\<open>malloc\<close> has just allocated) and \<^verbatim>\<open>pidlist_remove\<close>, the
  \<^verbatim>\<open>prev\<close> pointer of every allocated node is null.
\<close>

theorem prev_always_null:
  "reachable st \<Longrightarrow> heap st a = Some n \<Longrightarrow> prev n = 0"
  by (rule reachable_prev_null)

theorem prev_always_null_witness:
  "reachable (list_6_5\<lparr>pidlist_start := 0, heap := (heap list_6_5)(2 := None)\<rparr>) \<and>
   heap (list_6_5\<lparr>pidlist_start := 0, heap := (heap list_6_5)(2 := None)\<rparr>) 1
     = Some \<lparr>PID = 5, prev = 0, nxt = 0\<rparr> \<and>
   prev \<lparr>PID = 5, prev = 0, nxt = 0\<rparr> = 0"
proof -
  let ?s = "list_6_5\<lparr>pidlist_start := 0, heap := (heap list_6_5)(2 := None)\<rparr>"
  have "reachable init" by (rule reachable.start) (simp_all add: init_def)
  moreover have "heap init 1 = None" "pidlist_add 1 5 init = Ret list_5"
    by (simp_all add: run_simps scene_simps)
  ultimately have "reachable list_5" by (rule reachable.add)
  moreover have "heap list_5 2 = None" "pidlist_add 2 6 list_5 = Ret list_6_5"
    by (simp_all add: run_simps scene_simps)
  ultimately have "reachable list_6_5" by (rule reachable.add)
  moreover have "pidlist_remove 6 list_6_5 = Some (Ret ?s)"
    by (simp add: run_simps scene_simps)
  ultimately have r: "reachable ?s" by (rule reachable.remove)
  have h: "heap ?s 1 = Some \<lparr>PID = 5, prev = 0, nxt = 0\<rparr>"
    by (simp add: scene_simps init_def)
  from prev_always_null[OF r h] r h show ?thesis by simp
qed

end
